theory Spec2Isabelle
  imports Main "HOL-Library.Finite_Map"
begin

section \<open>Exceptions\<close>

text \<open>
  Every exception the modelled code raises is a value of \<open>error\<close>. The constructor
  records the raise site; \<open>is_ValueError\<close> records the Python class, which decides
  whether an \<^verbatim>\<open>except ValueError\<close> handler catches it.
\<close>

datatype error =
    ManifestNameMissing
  | JSONDecodeError
  | OSError
  | PackageNotFound string
  | CircularDependency string
  | CouldNotFind string error
  | CircularBuildOrder
  | KeyError string
  | UnknownSourceType string
  | MissingUrl string
  | GitRequired
  | CalledProcessError "string list"
  | LocalPathMissing string
  | DownloadFailed string
  | ExtractError

fun is_ValueError :: "error \<Rightarrow> bool" where
  "is_ValueError ManifestNameMissing = True"
| "is_ValueError JSONDecodeError = True"
| "is_ValueError (PackageNotFound n) = True"
| "is_ValueError (CircularDependency n) = True"
| "is_ValueError (CouldNotFind n e) = True"
| "is_ValueError CircularBuildOrder = True"
| "is_ValueError (UnknownSourceType t) = True"
| "is_ValueError (MissingUrl t) = True"
| "is_ValueError (LocalPathMissing p) = True"
| "is_ValueError e = False"

section \<open>Packages (tsi/package.py)\<close>

text \<open>
  The \<open>source\<close> entry of a manifest is a dictionary; each key is optional. Only the
  manifest fields read by the functions modelled below are kept in \<open>package\<close>.
\<close>

record source_spec =
  src_type :: "string option"
  src_url :: "string option"
  src_branch :: "string option"
  src_tag :: "string option"
  src_commit :: "string option"
  src_path :: "string option"

record package =
  name :: string
  version :: string
  source :: source_spec
  dependencies :: "string list"
  build_dependencies :: "string list"

text \<open>
  What a manifest file holds: a JSON object (its fields read into a \<open>package\<close>, the
  name empty when the key is absent), text that is not JSON, or something that cannot be
  opened and read at all.
\<close>

datatype manifest_file = Manifest package | NotJSON | Unreadable

definition from_file :: "manifest_file \<Rightarrow> error + package" where
  "from_file f =
     (case f of
        Unreadable \<Rightarrow> Inl OSError
      | NotJSON \<Rightarrow> Inl JSONDecodeError
      | Manifest p \<Rightarrow> if name p = [] then Inl ManifestNameMissing else Inr p)"

text \<open>
  \<^verbatim>\<open>list(set(self.dependencies + self.build_dependencies))\<close>: the iteration order of
  a Python set of strings is not fixed by the language, so the listing of a set is a
  parameter \<open>los\<close> of the model; \<open>set_listing\<close> says what every such listing satisfies.
\<close>

definition set_listing :: "(string list \<Rightarrow> string list) \<Rightarrow> bool" where
  "set_listing los = (\<forall>xs. set (los xs) = set xs \<and> distinct (los xs))"

definition get_all_dependencies :: "(string list \<Rightarrow> string list) \<Rightarrow> package \<Rightarrow> string list" where
  "get_all_dependencies los p = los (dependencies p @ build_dependencies p)"

section \<open>Repository (tsi/repository.py)\<close>

text \<open>
  \<open>cache\<close> is the in-process dictionary; \<open>repo_files\<close> maps \<open>n\<close> to the file
  \<^verbatim>\<open>repo_dir/n.json\<close> when it exists; \<open>path_files\<close> maps \<open>n\<close> to what exists at the
  path \<open>n\<close> itself; \<open>path_is_json n\<close> says that \<^verbatim>\<open>Path(n).suffix == ".json"\<close>.
  Dictionaries and directories are finite, hence finite maps.
\<close>

record repository =
  cache :: "(string, package) fmap"
  repo_files :: "(string, manifest_file) fmap"
  path_files :: "(string, manifest_file) fmap"
  path_is_json :: "string \<Rightarrow> bool"

definition load_and_cache :: "repository \<Rightarrow> string \<Rightarrow> manifest_file \<Rightarrow> (error + package) \<times> repository" where
  "load_and_cache r n f =
     (case from_file f of
        Inl e \<Rightarrow> (Inl e, r)
      | Inr p \<Rightarrow> (Inr p, r\<lparr>cache := fmupd n p (cache r)\<rparr>))"

definition get_package :: "repository \<Rightarrow> string \<Rightarrow> (error + package) \<times> repository" where
  "get_package r n =
     (case fmlookup (cache r) n of
        Some p \<Rightarrow> (Inr p, r)
      | None \<Rightarrow>
         (case fmlookup (repo_files r) n of
            Some f \<Rightarrow> load_and_cache r n f
          | None \<Rightarrow>
             (case fmlookup (path_files r) n of
                Some f \<Rightarrow>
                  if path_is_json r n then load_and_cache r n f
                  else (Inl (PackageNotFound n), r)
              | None \<Rightarrow> (Inl (PackageNotFound n), r))))"

section \<open>Database (tsi/database.py)\<close>

record db_record =
  rec_name :: string
  rec_version :: string
  rec_install_path :: string
  rec_installed_at :: string
  rec_dependencies :: "string list"

text \<open>
  The backing file \<^verbatim>\<open>installed.json\<close>: absent, present with content that cannot be
  read as JSON, or a document mapping names to records.
\<close>

datatype db_file = Absent | Unparsable | Document "string \<rightharpoonup> db_record"

record database =
  installed :: "string \<rightharpoonup> db_record"
  db_store :: db_file

definition load :: "db_file \<Rightarrow> (string \<rightharpoonup> db_record)" where
  "load f = (case f of Absent \<Rightarrow> Map.empty | Unparsable \<Rightarrow> Map.empty | Document d \<Rightarrow> d)"

definition Database :: "db_file \<Rightarrow> database" where
  "Database f = \<lparr>installed = load f, db_store = f\<rparr>"

definition save :: "database \<Rightarrow> database" where
  "save db = db\<lparr>db_store := Document (installed db)\<rparr>"

definition is_installed :: "database \<Rightarrow> string \<Rightarrow> bool" where
  "is_installed db n = (n \<in> dom (installed db))"

definition add_package :: "string \<Rightarrow> database \<Rightarrow> package \<Rightarrow> string \<Rightarrow> database" where
  "add_package now db p install_path =
     save (db\<lparr>installed := (installed db)(name p \<mapsto>
       \<lparr>rec_name = name p, rec_version = version p, rec_install_path = install_path,
        rec_installed_at = now, rec_dependencies = dependencies p\<rparr>)\<rparr>)"

definition get_all_installed :: "database \<Rightarrow> string set" where
  "get_all_installed db = dom (installed db)"

section \<open>Dependency resolver (tsi/resolver.py)\<close>

subsection \<open>resolve\<close>

text \<open>
  The local variables of \<^verbatim>\<open>resolve\<close> that the nested function \<^verbatim>\<open>visit\<close> mutates,
  together with the repository, whose cache every lookup may extend.
\<close>

record rstate =
  resolved :: "string list"
  visited :: "string set"
  processing :: "string set"
  repo :: repository

text \<open>
  The body of a \<^verbatim>\<open>for\<close> loop whose iterations may raise: the first exception ends
  the loop. \<open>None\<close> is the interpreter giving up because the recursion limit is reached.
\<close>

primrec for_each :: "('a \<Rightarrow> 's \<Rightarrow> ('e + 's) option) \<Rightarrow> 'a list \<Rightarrow> 's \<Rightarrow> ('e + 's) option" where
  "for_each f [] s = Some (Inr s)"
| "for_each f (x # xs) s =
     (case f x s of
        None \<Rightarrow> None
      | Some (Inl e) \<Rightarrow> Some (Inl e)
      | Some (Inr s') \<Rightarrow> for_each f xs s')"

text \<open>
  \<^verbatim>\<open>visit\<close> is recursive through the loop over the dependencies. The first argument
  is the number of nested calls the interpreter still allows; an exception carries the
  repository as the lookups so far have left it.
\<close>

primrec visit :: "nat \<Rightarrow> (string list \<Rightarrow> string list) \<Rightarrow> string set \<Rightarrow> string \<Rightarrow> rstate
    \<Rightarrow> ((error \<times> repository) + rstate) option" where
  "visit 0 los inst pkg_name st = None"
| "visit (Suc depth) los inst pkg_name st =
     (if pkg_name \<in> inst then Some (Inr st)
      else if pkg_name \<in> processing st then Some (Inl (CircularDependency pkg_name, repo st))
      else if pkg_name \<in> visited st then Some (Inr st)
      else
        (case get_package (repo st) pkg_name of
           (Inl e, r') \<Rightarrow> Some (Inl (CouldNotFind pkg_name e, r'))
         | (Inr p, r') \<Rightarrow>
            (case for_each (visit depth los inst) (get_all_dependencies los p)
                    (st\<lparr>processing := insert pkg_name (processing st), repo := r'\<rparr>) of
               None \<Rightarrow> None
             | Some (Inl e) \<Rightarrow> Some (Inl e)
             | Some (Inr st2) \<Rightarrow>
                 if pkg_name \<notin> processing st2 then Some (Inl (KeyError pkg_name, repo st2))
                 else Some (Inr (st2\<lparr>
                   processing := processing st2 - {pkg_name},
                   visited := insert pkg_name (visited st2),
                   resolved := (if pkg_name \<notin> set (resolved st2)
                                then resolved st2 @ [pkg_name] else resolved st2)\<rparr>)))))"

definition resolve :: "nat \<Rightarrow> (string list \<Rightarrow> string list) \<Rightarrow> repository \<Rightarrow> string \<Rightarrow> string set
    \<Rightarrow> ((error \<times> repository) + (string list \<times> repository)) option" where
  "resolve depth los r package_name inst =
     (case visit depth los inst package_name
             \<lparr>resolved = [], visited = {}, processing = {}, repo = r\<rparr> of
        None \<Rightarrow> None
      | Some (Inl e) \<Rightarrow> Some (Inl e)
      | Some (Inr st) \<Rightarrow> Some (Inr (resolved st, repo st)))"

subsection \<open>The dependency graph of a repository\<close>

text \<open>
  \<open>lookup r n\<close> is the package a call of \<^verbatim>\<open>get_package\<close> returns for \<open>n\<close>, if it
  returns one. \<open>requires r inst\<close> relates a name outside \<open>inst\<close> to each of its
  dependencies and build dependencies outside \<open>inst\<close>.
\<close>

definition lookup :: "repository \<Rightarrow> string \<Rightarrow> package option" where
  "lookup r n = (case fst (get_package r n) of Inl e \<Rightarrow> None | Inr p \<Rightarrow> Some p)"

definition deps_of :: "repository \<Rightarrow> string \<Rightarrow> string set" where
  "deps_of r n =
     (case lookup r n of
        None \<Rightarrow> {}
      | Some p \<Rightarrow> set (dependencies p) \<union> set (build_dependencies p))"

definition requires :: "repository \<Rightarrow> string set \<Rightarrow> (string \<times> string) set" where
  "requires r inst = {(a, b). a \<notin> inst \<and> b \<notin> inst \<and> b \<in> deps_of r a}"

definition known :: "repository \<Rightarrow> string set" where
  "known r = fmdom' (cache r) \<union> fmdom' (repo_files r) \<union> fmdom' (path_files r)"

text \<open>\<open>before xs a b\<close>: the first occurrence of \<open>a\<close> in \<open>xs\<close> has \<open>b\<close> after it.\<close>

fun before :: "'a list \<Rightarrow> 'a \<Rightarrow> 'a \<Rightarrow> bool" where
  "before [] a b = False"
| "before (x # xs) a b = (if x = a then b \<in> set xs else before xs a b)"

subsection \<open>Successful runs of visit as a relation\<close>

text \<open>
  The runs of \<open>visit\<close> that return normally, as an inductive relation between the state
  before and after (\<open>ok_visits\<close> for the loop over a list of dependencies). Lemma
  \<open>visit_ok\<close> below derives it from the function; properties of successful runs are
  then proved by rule induction.
\<close>

inductive ok_visit :: "(string list \<Rightarrow> string list) \<Rightarrow> string set \<Rightarrow> string \<Rightarrow> rstate \<Rightarrow> rstate \<Rightarrow> bool"
  and ok_visits :: "(string list \<Rightarrow> string list) \<Rightarrow> string set \<Rightarrow> string list \<Rightarrow> rstate \<Rightarrow> rstate \<Rightarrow> bool"
  for los :: "string list \<Rightarrow> string list" and inst :: "string set" where
  skip_installed: "n \<in> inst \<Longrightarrow> ok_visit los inst n st st"
| skip_visited: "n \<notin> inst \<Longrightarrow> n \<notin> processing st \<Longrightarrow> n \<in> visited st \<Longrightarrow> ok_visit los inst n st st"
| enter: "n \<notin> inst \<Longrightarrow> n \<notin> processing st \<Longrightarrow> n \<notin> visited st \<Longrightarrow>
     get_package (repo st) n = (Inr p, r') \<Longrightarrow>
     ok_visits los inst (get_all_dependencies los p)
        (st\<lparr>processing := insert n (processing st), repo := r'\<rparr>) st2 \<Longrightarrow>
     n \<in> processing st2 \<Longrightarrow>
     ok_visit los inst n st (st2\<lparr>processing := processing st2 - {n},
        visited := insert n (visited st2),
        resolved := (if n \<notin> set (resolved st2) then resolved st2 @ [n] else resolved st2)\<rparr>)"
| visits_Nil: "ok_visits los inst [] st st"
| visits_Cons: "ok_visit los inst d st st1 \<Longrightarrow> ok_visits los inst ds st1 st2 \<Longrightarrow>
     ok_visits los inst (d # ds) st st2"

text \<open>
  The invariant of the traversal: \<open>resolved\<close> lists \<open>visited\<close> without repetition, no
  visited name is installed or in progress, and every dependency of a visited name is
  installed or stands before it in \<open>resolved\<close>.
\<close>

definition resolve_inv :: "repository \<Rightarrow> string set \<Rightarrow> rstate \<Rightarrow> bool" where
  "resolve_inv r inst st \<longleftrightarrow>
     lookup (repo st) = lookup r \<and> set (resolved st) = visited st \<and> distinct (resolved st) \<and>
     visited st \<inter> inst = {} \<and> visited st \<inter> processing st = {} \<and>
     (\<forall>v\<in>visited st. \<forall>d\<in>deps_of r v. d \<in> inst \<or> before (resolved st) d v)"

text \<open>What an exception of \<open>visit\<close> started at \<open>n\<close> can be.\<close>

definition failure_ok :: "repository \<Rightarrow> string set \<Rightarrow> string \<Rightarrow> error \<Rightarrow> bool" where
  "failure_ok r inst n e \<longleftrightarrow>
     (case e of
        CircularDependency m \<Rightarrow> (m, m) \<in> (requires r inst)\<^sup>+ \<and> (n, m) \<in> (requires r inst)\<^sup>*
      | CouldNotFind m e' \<Rightarrow> lookup r m = None \<and> (n, m) \<in> (requires r inst)\<^sup>*
      | _ \<Rightarrow> False)"

text \<open>
  \<open>loadable r\<close>: the names for which \<^verbatim>\<open>get_package\<close> returns a package.
  \<open>agree_off inst r1 r2\<close>: the two repositories hold the same for every name outside
  \<open>inst\<close>. \<open>outcome\<close> forgets the repository a result carries.
\<close>

definition loadable :: "repository \<Rightarrow> string set" where
  "loadable r = dom (lookup r)"

definition agree_off :: "string set \<Rightarrow> repository \<Rightarrow> repository \<Rightarrow> bool" where
  "agree_off inst r1 r2 \<longleftrightarrow>
     (\<forall>n. n \<notin> inst \<longrightarrow>
        fmlookup (cache r1) n = fmlookup (cache r2) n \<and>
        fmlookup (repo_files r1) n = fmlookup (repo_files r2) n \<and>
        fmlookup (path_files r1) n = fmlookup (path_files r2) n \<and>
        path_is_json r1 n = path_is_json r2 n)"

definition outcome :: "(('e \<times> repository) + ('a \<times> repository)) option \<Rightarrow> ('e + 'a) option" where
  "outcome x = map_option (map_sum fst fst) x"

definition st_rel :: "string set \<Rightarrow> rstate \<Rightarrow> rstate \<Rightarrow> bool" where
  "st_rel inst s1 s2 \<longleftrightarrow>
     resolved s1 = resolved s2 \<and> visited s1 = visited s2 \<and> processing s1 = processing s2 \<and>
     agree_off inst (repo s1) (repo s2)"

abbreviation res_rel :: "string set \<Rightarrow> ((error \<times> repository) + rstate) option
    \<Rightarrow> ((error \<times> repository) + rstate) option \<Rightarrow> bool" where
  "res_rel inst \<equiv> rel_option (rel_sum (rel_prod (=) (agree_off inst)) (st_rel inst))"

subsection \<open>get_build_order\<close>

text \<open>
  \<^verbatim>\<open>graph\<close> maps a name to the set of its dependents, \<^verbatim>\<open>in_degree\<close> a name to a
  number. A Python set is kept as the list of its elements in the order of insertion;
  iterating over it goes through \<open>los\<close>.
\<close>

type_synonym graph = "(string, string list) fmap"
type_synonym in_degree = "(string, int) fmap"

definition set_add :: "string list \<Rightarrow> string \<Rightarrow> string list" where
  "set_add s x = (if x \<in> set s then s else s @ [x])"

text \<open>
  The loop over the dependencies of \<open>pkg_name\<close>. A \<^verbatim>\<open>KeyError\<close> would be caught by the
  enclosing \<^verbatim>\<open>except Exception: pass\<close>, ending the loop with the updates made so far.
\<close>

fun add_edges :: "string list \<Rightarrow> string \<Rightarrow> string list \<Rightarrow> graph \<times> in_degree \<Rightarrow> graph \<times> in_degree" where
  "add_edges packages pkg_name [] gi = gi"
| "add_edges packages pkg_name (dep # deps) (g, ind) =
     (if dep \<in> set packages then
        (case fmlookup g dep of
           None \<Rightarrow> (g, ind)
         | Some s \<Rightarrow>
            (case fmlookup ind pkg_name of
               None \<Rightarrow> (fmupd dep (set_add s pkg_name) g, ind)
             | Some v \<Rightarrow>
                 add_edges packages pkg_name deps
                   (fmupd dep (set_add s pkg_name) g, fmupd pkg_name (v + 1) ind)))
      else add_edges packages pkg_name deps (g, ind))"

fun build_graph :: "(string list \<Rightarrow> string list) \<Rightarrow> string list \<Rightarrow> string list
    \<Rightarrow> repository \<times> graph \<times> in_degree \<Rightarrow> repository \<times> graph \<times> in_degree" where
  "build_graph los packages [] s = s"
| "build_graph los packages (pkg_name # rest) (r, g, ind) =
     (case get_package r pkg_name of
        (Inl e, r') \<Rightarrow> build_graph los packages rest (r', g, ind)
      | (Inr package, r') \<Rightarrow>
          build_graph los packages rest
            (case add_edges packages pkg_name (get_all_dependencies los package) (g, ind) of
               (g', ind') \<Rightarrow> (r', g', ind')))"

text \<open>The loop over the dependents of the name just taken from the queue.\<close>

fun relax :: "string list \<Rightarrow> in_degree \<times> string list \<Rightarrow> error + (in_degree \<times> string list)" where
  "relax [] s = Inr s"
| "relax (dependent # ds) (ind, queue) =
     (case fmlookup ind dependent of
        None \<Rightarrow> Inl (KeyError dependent)
      | Some v \<Rightarrow>
          relax ds (fmupd dependent (v - 1) ind,
                    if v - 1 = 0 then queue @ [dependent] else queue))"

definition positive :: "in_degree \<Rightarrow> string set" where
  "positive ind = {k. \<exists>v. fmlookup ind k = Some v \<and> 0 < v}"

function kahn_loop :: "(string list \<Rightarrow> string list) \<Rightarrow> graph \<Rightarrow> in_degree \<Rightarrow> string list \<Rightarrow> string list
    \<Rightarrow> error + string list" where
  "kahn_loop los g ind [] result = Inr result"
| "kahn_loop los g ind (pkg # queue) result =
     (case fmlookup g pkg of
        None \<Rightarrow> Inl (KeyError pkg)
      | Some s \<Rightarrow>
          (case relax (los s) (ind, queue) of
             Inl e \<Rightarrow> Inl e
           | Inr (ind', queue') \<Rightarrow> kahn_loop los g ind' queue' (result @ [pkg])))"
  by pat_completeness auto

text \<open>The loop ends: every pass takes a name from the queue, and a name enters the queue
  only when its count drops from one to zero.\<close>

lemma finite_positive: "finite (positive ind)"
proof (rule finite_subset)
  show "positive ind \<subseteq> fmdom' ind" by (auto simp: positive_def fmlookup_dom'_iff)
  show "finite (fmdom' ind)" by simp
qed

lemma positive_decr:
  assumes "fmlookup ind d = Some v"
  shows "positive (fmupd d (v - 1) ind) = (if 1 < v then positive ind else positive ind - {d})"
proof (rule set_eqI)
  fix k
  show "k \<in> positive (fmupd d (v - 1) ind) \<longleftrightarrow> k \<in> (if 1 < v then positive ind else positive ind - {d})"
  proof (cases "k = d")
    case True
    then show ?thesis using assms by (simp add: positive_def)
  next
    case False
    then show ?thesis by (simp add: positive_def)
  qed
qed

lemma card_positive_decr:
  assumes "fmlookup ind d = Some v"
  shows "card (positive (fmupd d (v - 1) ind)) + (if v - 1 = 0 then 1 else 0) = card (positive ind)"
proof (cases "v = 1")
  case True
  then have "d \<in> positive ind" using assms by (simp add: positive_def)
  then have "card (positive ind - {d}) + 1 = card (positive ind)"
    using card_Suc_Diff1[OF finite_positive[of ind], of d] by simp
  then show ?thesis using True positive_decr[OF assms] by simp
next
  case False
  show ?thesis
  proof (cases "1 < v")
    case True
    then show ?thesis using False positive_decr[OF assms] by simp
  next
    case f: False
    then have "d \<notin> positive ind" using assms False by (auto simp: positive_def)
    then show ?thesis using False f positive_decr[OF assms] by simp
  qed
qed

lemma relax_measure:
  "relax ds (ind, queue) = Inr (ind', queue') \<Longrightarrow>
     card (positive ind') + length queue' = card (positive ind) + length queue"
proof (induction ds arbitrary: ind queue)
  case Nil
  then show ?case by simp
next
  case (Cons d ds)
  from Cons.prems obtain v where v: "fmlookup ind d = Some v"
    by (cases "fmlookup ind d") auto
  let ?ind1 = "fmupd d (v - 1) ind"
  let ?q1 = "if v - 1 = 0 then queue @ [d] else queue"
  from Cons.prems v have "relax ds (?ind1, ?q1) = Inr (ind', queue')" by simp
  from Cons.IH[OF this] have "card (positive ind') + length queue' = card (positive ?ind1) + length ?q1" .
  also have "\<dots> = card (positive ind) + length queue"
    using card_positive_decr[OF v] by (auto split: if_splits)
  finally show ?case .
qed

termination kahn_loop
proof (relation "measure (\<lambda>(los, g, ind, queue, result). card (positive ind) + length queue)")
  show "wf (measure (\<lambda>(los, g, ind, queue, result). card (positive ind) + length queue))" by simp
next
  fix los :: "string list \<Rightarrow> string list" and g :: graph and ind :: in_degree and pkg queue result s x ind' queue'
  assume "fmlookup g pkg = Some s" "relax (los s) (ind, queue) = Inr x" "(ind', queue') = x"
  then have "relax (los s) (ind, queue) = Inr (ind', queue')" by simp
  from relax_measure[OF this]
  show "((los, g, ind', queue', result @ [pkg]), (los, g, ind, pkg # queue, result))
      \<in> measure (\<lambda>(los, g, ind, queue, result). card (positive ind) + length queue)"
    by simp
qed

definition get_build_order :: "(string list \<Rightarrow> string list) \<Rightarrow> repository \<Rightarrow> string list
    \<Rightarrow> (error + string list) \<times> repository" where
  "get_build_order los r packages =
     (let graph0 = fold (\<lambda>pkg g. fmupd pkg [] g) packages fmempty;
          in_degree0 = fold (\<lambda>pkg d. fmupd pkg 0 d) packages fmempty
      in
      case build_graph los packages packages (r, graph0, in_degree0) of
        (r', g, ind) \<Rightarrow>
          (case kahn_loop los g ind (filter (\<lambda>pkg. fmlookup ind pkg = Some 0) packages) [] of
             Inl e \<Rightarrow> (Inl e, r')
           | Inr result \<Rightarrow>
               if length result \<noteq> length packages then (Inl CircularBuildOrder, r')
               else (Inr result, r')))"

section \<open>Source fetcher (tsi/fetcher.py)\<close>

text \<open>
  A directory tree. The source directory of the fetcher holds one target directory per
  package name (\<open>dirs\<close>) and the downloaded archives by file name (\<open>files\<close>);
  \<open>cmds\<close> is the sequence of external commands run so far.
\<close>

datatype node = File string | Dir "(string \<times> node) list"

type_synonym entries = "(string \<times> node) list"

record fetch_world =
  dirs :: "string \<rightharpoonup> entries"
  files :: "string \<rightharpoonup> string"
  cmds :: "string list list"

text \<open>
  What lies outside the program: whether \<^verbatim>\<open>git --version\<close> runs, which commands
  exit with status zero, the tree a clone creates and the tree a git command leaves in
  a checkout, what curl and urllib deliver for a URL, what exists at a local path, how
  an archive unpacks (\<open>None\<close>: the library raises), and the file name
  \<^verbatim>\<open>Path(urlparse(url).path).name\<close> of a URL.
\<close>

record fetch_env =
  git_available :: bool
  run_ok :: "string list \<Rightarrow> bool"
  clone_tree :: "string \<Rightarrow> entries"
  git_tree :: "string list \<Rightarrow> entries \<Rightarrow> entries"
  curl :: "string \<Rightarrow> string option"
  urllib :: "string \<Rightarrow> string option"
  local_path :: "string \<Rightarrow> node option"
  tar_entries :: "string \<Rightarrow> entries option"
  zip_entries :: "string \<Rightarrow> entries option"
  url_filename :: "string \<Rightarrow> string"

text \<open>Python truth of an optional string: present and not empty.\<close>

definition truthy :: "string option \<Rightarrow> bool" where
  "truthy s = (case s of None \<Rightarrow> False | Some x \<Rightarrow> x \<noteq> [])"

text \<open>\<^verbatim>\<open>subprocess.run(cmd, cwd=target, check=True)\<close> of a git command in a checkout.\<close>

definition run_in :: "fetch_env \<Rightarrow> string list \<Rightarrow> string \<Rightarrow> fetch_world \<Rightarrow> (error + unit) \<times> fetch_world" where
  "run_in env cmd target w =
     (let w1 = w\<lparr>cmds := cmds w @ [cmd]\<rparr> in
      if run_ok env cmd
      then (Inr (), w1\<lparr>dirs := (dirs w1)(target := map_option (git_tree env cmd) (dirs w1 target))\<rparr>)
      else (Inl (CalledProcessError cmd), w1))"

definition checkout :: "fetch_env \<Rightarrow> string \<Rightarrow> string \<Rightarrow> fetch_world \<Rightarrow> (error + unit) \<times> fetch_world" where
  "checkout env ref target w = run_in env [''git'', ''checkout'', ref] target w"

definition fetch_git :: "fetch_env \<Rightarrow> source_spec \<Rightarrow> string \<Rightarrow> bool \<Rightarrow> fetch_world
    \<Rightarrow> (error + string) \<times> fetch_world" where
  "fetch_git env src target_dir force w =
     (if \<not> truthy (src_url src) then (Inl (MissingUrl ''Git''), w)
      else
        let url = the (src_url src);
            w1 = w\<lparr>cmds := cmds w @ [[''git'', ''--version'']]\<rparr>
        in
        if \<not> git_available env then (Inl GitRequired, w1)
        else
          let branch = (case src_branch src of None \<Rightarrow> ''main'' | Some b \<Rightarrow> b);
              tag = src_tag src;
              commit = src_commit src
          in
          if target_dir \<in> dom (dirs w1) \<and> \<not> force then
            (case run_in env [''git'', ''fetch'', ''origin''] target_dir w1 of
               (Inl e, w2) \<Rightarrow> (Inl e, w2)
             | (Inr u, w2) \<Rightarrow>
                 (case checkout env
                         (if truthy tag then the tag else if truthy commit then the commit else branch)
                         target_dir w2 of
                    (Inl e, w3) \<Rightarrow> (Inl e, w3)
                  | (Inr u, w3) \<Rightarrow> (Inr target_dir, w3)))
          else
            let w2 = (if target_dir \<in> dom (dirs w1) then w1\<lparr>dirs := (dirs w1)(target_dir := None)\<rparr> else w1);
                clone = [''git'', ''clone'', ''--depth'', ''1'', url, target_dir];
                w3 = w2\<lparr>cmds := cmds w2 @ [clone]\<rparr>
            in
            if \<not> run_ok env clone then (Inl (CalledProcessError clone), w3)
            else
              let w4 = w3\<lparr>dirs := (dirs w3)(target_dir \<mapsto> clone_tree env url)\<rparr> in
              if truthy tag \<or> truthy commit \<or> branch \<noteq> ''main'' then
                (case checkout env
                        (if truthy tag then the tag else if truthy commit then the commit else branch)
                        target_dir w4 of
                   (Inl e, w5) \<Rightarrow> (Inl e, w5)
                 | (Inr u, w5) \<Rightarrow> (Inr target_dir, w5))
              else (Inr target_dir, w4))"

definition download_file :: "fetch_env \<Rightarrow> string \<Rightarrow> string \<Rightarrow> fetch_world \<Rightarrow> (error + unit) \<times> fetch_world" where
  "download_file env url target_path w =
     (case curl env url of
        Some content \<Rightarrow> (Inr (), w\<lparr>files := (files w)(target_path \<mapsto> content)\<rparr>)
      | None \<Rightarrow>
         (case urllib env url of
            Some content \<Rightarrow> (Inr (), w\<lparr>files := (files w)(target_path \<mapsto> content)\<rparr>)
          | None \<Rightarrow> (Inl (DownloadFailed url), w)))"

text \<open>
  The loop that moves the items of \<^verbatim>\<open>temp\<close> one level up. A rename onto the
  directory \<^verbatim>\<open>temp\<close> itself, which is not empty, raises.
\<close>

fun hoist_items :: "entries \<Rightarrow> entries \<Rightarrow> (error + unit) \<times> entries" where
  "hoist_items [] moved = (Inr (), moved)"
| "hoist_items ((n, x) # items) moved =
     (if n = ''temp'' then (Inl OSError, moved @ [(''temp'', Dir ((n, x) # items))])
      else hoist_items items (moved @ [(n, x)]))"

definition hoist_single :: "entries \<Rightarrow> (error + unit) \<times> entries" where
  "hoist_single extracted_items =
     (case extracted_items of
        [(d, Dir items)] \<Rightarrow> hoist_items items []
      | _ \<Rightarrow> (Inr (), extracted_items))"

definition archive_name :: "fetch_env \<Rightarrow> string \<Rightarrow> string \<Rightarrow> string" where
  "archive_name env url dflt =
     (let filename = url_filename env url in
      if filename = [] \<or> filename = ''/'' then dflt else filename)"

definition fetch_tarball :: "fetch_env \<Rightarrow> source_spec \<Rightarrow> string \<Rightarrow> bool \<Rightarrow> fetch_world
    \<Rightarrow> (error + string) \<times> fetch_world" where
  "fetch_tarball env src target_dir force w =
     (if \<not> truthy (src_url src) then (Inl (MissingUrl ''Tarball''), w)
      else
        let url = the (src_url src);
            tarball_path = archive_name env url ''source.tar.gz''
        in
        case (if tarball_path \<notin> dom (files w) \<or> force
              then download_file env url tarball_path w else (Inr (), w)) of
          (Inl e, w1) \<Rightarrow> (Inl e, w1)
        | (Inr u, w1) \<Rightarrow>
            let w2 = (if target_dir \<in> dom (dirs w1) \<and> force
                      then w1\<lparr>dirs := (dirs w1)(target_dir := None)\<rparr> else w1)
            in
            if target_dir \<notin> dom (dirs w2) then
              (case Option.bind (files w2 tarball_path) (tar_entries env) of
                 None \<Rightarrow> (Inl ExtractError, w2\<lparr>dirs := (dirs w2)(target_dir \<mapsto> [])\<rparr>)
               | Some extracted_items \<Rightarrow>
                   (case hoist_single extracted_items of
                      (Inl e, items) \<Rightarrow> (Inl e, w2\<lparr>dirs := (dirs w2)(target_dir \<mapsto> items)\<rparr>)
                    | (Inr u, items) \<Rightarrow> (Inr target_dir, w2\<lparr>dirs := (dirs w2)(target_dir \<mapsto> items)\<rparr>)))
            else (Inr target_dir, w2))"

definition fetch_zip :: "fetch_env \<Rightarrow> source_spec \<Rightarrow> string \<Rightarrow> bool \<Rightarrow> fetch_world
    \<Rightarrow> (error + string) \<times> fetch_world" where
  "fetch_zip env src target_dir force w =
     (if \<not> truthy (src_url src) then (Inl (MissingUrl ''Zip''), w)
      else
        let url = the (src_url src);
            zip_path = archive_name env url ''source.zip''
        in
        case (if zip_path \<notin> dom (files w) \<or> force
              then download_file env url zip_path w else (Inr (), w)) of
          (Inl e, w1) \<Rightarrow> (Inl e, w1)
        | (Inr u, w1) \<Rightarrow>
            let w2 = (if target_dir \<in> dom (dirs w1) \<and> force
                      then w1\<lparr>dirs := (dirs w1)(target_dir := None)\<rparr> else w1)
            in
            if target_dir \<notin> dom (dirs w2) then
              (case Option.bind (files w2 zip_path) (zip_entries env) of
                 None \<Rightarrow> (Inl ExtractError, w2\<lparr>dirs := (dirs w2)(target_dir \<mapsto> [])\<rparr>)
               | Some extracted_items \<Rightarrow>
                   (Inr target_dir, w2\<lparr>dirs := (dirs w2)(target_dir \<mapsto> extracted_items)\<rparr>))
            else (Inr target_dir, w2))"

definition fetch_local :: "fetch_env \<Rightarrow> source_spec \<Rightarrow> string \<Rightarrow> fetch_world
    \<Rightarrow> (error + string) \<times> fetch_world" where
  "fetch_local env src target_dir w =
     (let path = (case src_path src of None \<Rightarrow> [] | Some p \<Rightarrow> p) in
      case local_path env path of
        None \<Rightarrow> (Inl (LocalPathMissing path), w)
      | Some x \<Rightarrow>
          let w1 = (if target_dir \<in> dom (dirs w)
                    then w\<lparr>dirs := (dirs w)(target_dir := None)\<rparr> else w)
          in
          (case x of
             File content \<Rightarrow> (Inl OSError, w1)
           | Dir items \<Rightarrow> (Inr target_dir, w1\<lparr>dirs := (dirs w1)(target_dir \<mapsto> items)\<rparr>)))"

definition fetch :: "fetch_env \<Rightarrow> package \<Rightarrow> bool \<Rightarrow> fetch_world \<Rightarrow> (error + string) \<times> fetch_world" where
  "fetch env package force w =
     (let src = source package;
          source_type = (case src_type src of None \<Rightarrow> ''git'' | Some t \<Rightarrow> t);
          package_source_dir = name package
      in
      if package_source_dir \<in> dom (dirs w) \<and> \<not> force then (Inr package_source_dir, w)
      else if source_type = ''git'' then fetch_git env src package_source_dir force w
      else if source_type = ''tarball'' then fetch_tarball env src package_source_dir force w
      else if source_type = ''zip'' then fetch_zip env src package_source_dir force w
      else if source_type = ''local'' then fetch_local env src package_source_dir w
      else (Inl (UnknownSourceType source_type), w))"

section \<open>Package manager (tsi/manager.py)\<close>

text \<open>
  The builder runs external tools; of a build and of an install only the outcome is
  modelled, and \<open>m_steps\<close> records each call of fetch, build and install in order.
\<close>

datatype step = Fetch string bool | Build string | Install string

record manager =
  m_repository :: repository
  m_database :: database
  m_world :: fetch_world
  m_steps :: "step list"
  m_clock :: nat

record manager_env =
  fetch_environment :: fetch_env
  build_result :: "package \<Rightarrow> error option"
  install_result :: "package \<Rightarrow> error option"
  timestamp :: "nat \<Rightarrow> string"
  install_dir :: string

text \<open>
  Lines 33 to 41 of \<^verbatim>\<open>install\<close> (and 169 to 176 of \<^verbatim>\<open>build\<close>): look the
  specification up in the repository; on a \<^verbatim>\<open>ValueError\<close> read it as a path.
\<close>

definition get_package_or_file :: "repository \<Rightarrow> string \<Rightarrow> (error + package) \<times> repository" where
  "get_package_or_file r package_spec =
     (case get_package r package_spec of
        (Inr package, r') \<Rightarrow> (Inr package, r')
      | (Inl e, r') \<Rightarrow>
          if is_ValueError e then
            (case fmlookup (path_files r') package_spec of
               Some f \<Rightarrow> (from_file f, r')
             | None \<Rightarrow> (Inl (PackageNotFound package_spec), r'))
          else (Inl e, r'))"

definition install_package :: "manager_env \<Rightarrow> string \<Rightarrow> bool \<Rightarrow> manager \<Rightarrow> (error + unit) \<times> manager" where
  "install_package env package_name force m =
     (case get_package (m_repository m) package_name of
        (Inl e, r') \<Rightarrow> (Inl e, m\<lparr>m_repository := r'\<rparr>)
      | (Inr package, r') \<Rightarrow>
          let m1 = m\<lparr>m_repository := r', m_steps := m_steps m @ [Fetch (name package) force]\<rparr> in
          (case fetch (fetch_environment env) package force (m_world m1) of
             (Inl e, w') \<Rightarrow> (Inl e, m1\<lparr>m_world := w'\<rparr>)
           | (Inr source_dir, w') \<Rightarrow>
               let m2 = m1\<lparr>m_world := w', m_steps := m_steps m1 @ [Build (name package)]\<rparr> in
               (case build_result env package of
                  Some e \<Rightarrow> (Inl e, m2)
                | None \<Rightarrow>
                    let m3 = m2\<lparr>m_steps := m_steps m2 @ [Install (name package)]\<rparr> in
                    (case install_result env package of
                       Some e \<Rightarrow> (Inl e, m3)
                     | None \<Rightarrow>
                         (Inr (), m3\<lparr>
                            m_database := add_package (timestamp env (m_clock m3)) (m_database m3)
                                            package (install_dir env),
                            m_clock := Suc (m_clock m3)\<rparr>)))))"

text \<open>The loop of \<^verbatim>\<open>install\<close> over the build order.\<close>

fun install_dependencies :: "manager_env \<Rightarrow> string \<Rightarrow> bool \<Rightarrow> string list \<Rightarrow> manager
    \<Rightarrow> (error + unit) \<times> manager" where
  "install_dependencies env root force [] m = (Inr (), m)"
| "install_dependencies env root force (dep_name # rest) m =
     (if dep_name = root then install_dependencies env root force rest m
      else if is_installed (m_database m) dep_name \<and> \<not> force
      then install_dependencies env root force rest m
      else
        (case install_package env dep_name force m of
           (Inl e, m') \<Rightarrow> (Inl e, m')
         | (Inr u, m') \<Rightarrow> install_dependencies env root force rest m'))"

text \<open>
  \<^verbatim>\<open>install\<close>. \<open>depth\<close> is the recursion limit under which \<open>resolve\<close> runs; the result
  is \<open>None\<close> when that limit is reached.
\<close>

definition install :: "manager_env \<Rightarrow> nat \<Rightarrow> (string list \<Rightarrow> string list) \<Rightarrow> string \<Rightarrow> bool \<Rightarrow> manager
    \<Rightarrow> ((error + unit) \<times> manager) option" where
  "install env depth los package_spec force m =
     (case get_package_or_file (m_repository m) package_spec of
        (Inl e, r1) \<Rightarrow> Some (Inl e, m\<lparr>m_repository := r1\<rparr>)
      | (Inr package, r1) \<Rightarrow>
          let m1 = m\<lparr>m_repository := r1\<rparr> in
          if is_installed (m_database m1) (name package) \<and> \<not> force then Some (Inr (), m1)
          else
            (case resolve depth los r1 (name package) (get_all_installed (m_database m1)) of
               None \<Rightarrow> None
             | Some (Inl (e, r2)) \<Rightarrow> Some (Inl e, m1\<lparr>m_repository := r2\<rparr>)
             | Some (Inr (deps, r2)) \<Rightarrow>
                 (case get_build_order los r2 deps of
                    (Inl e, r3) \<Rightarrow> Some (Inl e, m1\<lparr>m_repository := r3\<rparr>)
                  | (Inr build_order, r3) \<Rightarrow>
                      (case install_dependencies env (name package) force build_order
                              (m1\<lparr>m_repository := r3\<rparr>) of
                         (Inl e, m2) \<Rightarrow> Some (Inl e, m2)
                       | (Inr u, m2) \<Rightarrow> Some (install_package env (name package) force m2)))))"

section \<open>Example repositories\<close>

text \<open>
  Concrete catalogs on which the statements below are evaluated. \<open>lib_repo\<close> is the
  catalog of the specification's example: libB depends on libA, libA on nothing.
\<close>

definition mk_package :: "string \<Rightarrow> string list \<Rightarrow> string list \<Rightarrow> package" where
  "mk_package n ds bs =
     \<lparr>name = n, version = ''latest'',
      source = \<lparr>src_type = None, src_url = None, src_branch = None, src_tag = None,
                src_commit = None, src_path = None\<rparr>,
      dependencies = ds, build_dependencies = bs\<rparr>"

definition catalog_repo :: "(string \<times> manifest_file) list \<Rightarrow> repository" where
  "catalog_repo fs = \<lparr>cache = fmempty, repo_files = fmap_of_list fs, path_files = fmempty,
     path_is_json = (\<lambda>n. False)\<rparr>"

definition lib_repo :: repository where
  "lib_repo = catalog_repo
     [(''libA'', Manifest (mk_package ''libA'' [] [])),
      (''libB'', Manifest (mk_package ''libB'' [''libA''] []))]"

definition lib_repo_broken :: repository where
  "lib_repo_broken = catalog_repo
     [(''libA'', NotJSON),
      (''libB'', Manifest (mk_package ''libB'' [''libA''] []))]"

definition dangling_repo :: repository where
  "dangling_repo = catalog_repo [(''libB'', Manifest (mk_package ''libB'' [''libA''] []))]"

definition cycle_repo :: repository where
  "cycle_repo = catalog_repo
     [(''A'', Manifest (mk_package ''A'' [''B''] [])),
      (''B'', Manifest (mk_package ''B'' [''A''] []))]"

definition cycle_dangling_repo :: repository where
  "cycle_dangling_repo = catalog_repo
     [(''A'', Manifest (mk_package ''A'' [''M'', ''B''] [])),
      (''B'', Manifest (mk_package ''B'' [''A''] []))]"

text \<open>A fetcher environment, packages of each source kind, and manager states.\<close>

definition proj_tree :: entries where
  "proj_tree = [(''proj-1.0'', Dir [(''Makefile'', File ''all:''), (''main.c'', File ''int main;'')])]"

definition example_env :: fetch_env where
  "example_env =
     \<lparr>git_available = True, run_ok = (\<lambda>cmd. True),
      clone_tree = (\<lambda>url. [(''README'', File ''cloned'')]),
      git_tree = (\<lambda>cmd t. t),
      curl = (\<lambda>url. Some ''archive bytes''), urllib = (\<lambda>url. None),
      local_path = (\<lambda>p. if p = ''/src/proj'' then Some (Dir [(''new.c'', File ''v2'')]) else None),
      tar_entries = (\<lambda>content. Some proj_tree), zip_entries = (\<lambda>content. Some proj_tree),
      url_filename = (\<lambda>url. ''proj-1.0.tar.gz'')\<rparr>"

definition source_of :: "string \<Rightarrow> string option \<Rightarrow> string option \<Rightarrow> string option \<Rightarrow> source_spec" where
  "source_of ty u t p =
     \<lparr>src_type = Some ty, src_url = u, src_branch = None, src_tag = t, src_commit = None, src_path = p\<rparr>"

definition proj_package :: "source_spec \<Rightarrow> package" where
  "proj_package src = \<lparr>name = ''proj'', version = ''1.0'', source = src,
     dependencies = [], build_dependencies = []\<rparr>"

definition empty_world :: fetch_world where
  "empty_world = \<lparr>dirs = Map.empty, files = Map.empty, cmds = []\<rparr>"

definition fetched_world :: fetch_world where
  "fetched_world = \<lparr>dirs = [''proj'' \<mapsto> [(''old.c'', File ''v1'')]], files = Map.empty, cmds = []\<rparr>"

definition example_manager_env :: manager_env where
  "example_manager_env =
     \<lparr>fetch_environment = example_env, build_result = (\<lambda>p. None), install_result = (\<lambda>p. None),
      timestamp = (\<lambda>n. ''2024-01-01T00:00:00''), install_dir = ''/home/user/.tsi/install''\<rparr>"

definition libA_record :: db_record where
  "libA_record = \<lparr>rec_name = ''libA'', rec_version = ''latest'',
     rec_install_path = ''/home/user/.tsi/install'', rec_installed_at = ''2023-12-31T12:00:00'',
     rec_dependencies = []\<rparr>"

definition manager_of :: "repository \<Rightarrow> (string \<rightharpoonup> db_record) \<Rightarrow> manager" where
  "manager_of r d = \<lparr>m_repository = r, m_database = Database (Document d),
     m_world = empty_world, m_steps = [], m_clock = 0\<rparr>"

text \<open>A repository with an empty catalog and one manifest at a path that does not end in .json.\<close>

definition path_repo :: repository where
  "path_repo = \<lparr>cache = fmempty, repo_files = fmempty,
     path_files = fmap_of_list [(''./libA.manifest'', Manifest (mk_package ''libA'' [] []))],
     path_is_json = (\<lambda>n. False)\<rparr>"

section \<open>Properties of the resolver\<close>

subsection \<open>Repository lookups\<close>

lemma load_and_cache_fields:
  "load_and_cache r n f = (res, r') \<Longrightarrow>
     repo_files r' = repo_files r \<and> path_files r' = path_files r \<and> path_is_json r' = path_is_json r"
  by (auto simp: load_and_cache_def split: sum.splits)

lemma get_package_fields:
  "get_package r n = (res, r') \<Longrightarrow>
     repo_files r' = repo_files r \<and> path_files r' = path_files r \<and> path_is_json r' = path_is_json r"
  by (auto simp: get_package_def split: option.splits if_splits dest: load_and_cache_fields)

lemma get_package_cache:
  "get_package r n = (res, r') \<Longrightarrow>
     cache r' = cache r \<or> (\<exists>p. cache r' = fmupd n p (cache r)
        \<and> (n \<in> fmdom' (repo_files r) \<or> n \<in> fmdom' (path_files r)))"
  unfolding get_package_def load_and_cache_def
  by (auto split: option.splits if_splits sum.splits simp: fmlookup_dom'_iff)

lemma get_package_result:
  "get_package r n = (res, r') \<Longrightarrow>
     (case res of Inl e \<Rightarrow> r' = r | Inr p \<Rightarrow> r' = r \<or> r' = r\<lparr>cache := fmupd n p (cache r)\<rparr>)"
  unfolding get_package_def load_and_cache_def
  by (auto split: option.splits if_splits sum.splits)

lemma lookup_cache_hit: "fmlookup (cache r) m = Some p \<Longrightarrow> lookup r m = Some p"
  by (simp add: lookup_def get_package_def)

lemma lookup_cache_miss:
  "fmlookup (cache r) m = None \<Longrightarrow>
   lookup (r\<lparr>cache := c\<rparr>) m = (case fmlookup c m of Some p \<Rightarrow> Some p | None \<Rightarrow> lookup r m)"
  by (simp add: lookup_def get_package_def load_and_cache_def split: option.splits sum.splits)

lemma lookup_cache_upd:
  assumes "lookup r n = Some p"
  shows "lookup (r\<lparr>cache := fmupd n p (cache r)\<rparr>) m = lookup r m"
proof (cases "fmlookup (cache r) m")
  case None
  then show ?thesis using assms by (auto simp: lookup_cache_miss)
next
  case (Some q)
  then have "lookup r m = Some q" by (rule lookup_cache_hit)
  moreover have "fmlookup (cache (r\<lparr>cache := fmupd n p (cache r)\<rparr>)) m = Some q"
    using Some assms \<open>lookup r m = Some q\<close> by auto
  ultimately show ?thesis by (simp add: lookup_cache_hit)
qed

lemma get_package_lookup:
  assumes "get_package r n = (res, r')"
  shows "lookup r' = lookup r"
proof (cases res)
  case (Inl e)
  then show ?thesis using get_package_result[OF assms] by simp
next
  case (Inr p)
  then have "lookup r n = Some p" using assms by (simp add: lookup_def)
  then have "lookup (r\<lparr>cache := fmupd n p (cache r)\<rparr>) = lookup r"
    by (auto simp: fun_eq_iff lookup_cache_upd)
  then show ?thesis using get_package_result[OF assms] Inr by auto
qed

lemma get_package_known:
  assumes "get_package r n = (res, r')"
  shows "known r' = known r"
  using get_package_cache[OF assms] get_package_fields[OF assms]
  by (auto simp: known_def)

lemma get_package_Inr_lookup: "get_package r n = (Inr p, r') \<Longrightarrow> lookup r n = Some p"
  by (simp add: lookup_def)

lemma get_package_Inl_lookup: "get_package r n = (Inl e, r') \<Longrightarrow> lookup r n = None"
  by (simp add: lookup_def)

lemma lookup_known: "lookup r n = Some p \<Longrightarrow> n \<in> known r"
  unfolding lookup_def known_def get_package_def load_and_cache_def
  by (auto split: option.splits if_splits sum.splits simp: fmlookup_dom'_iff)

lemma finite_known: "finite (known r)"
  by (simp add: known_def)

lemma deps_of_cong: "lookup r' = lookup r \<Longrightarrow> deps_of r' = deps_of r"
  by (auto simp: deps_of_def fun_eq_iff)

lemma requires_cong: "lookup r' = lookup r \<Longrightarrow> requires r' inst = requires r inst"
  using deps_of_cong[of r' r] by (simp add: requires_def)

lemma set_all_deps:
  "set_listing los \<Longrightarrow> lookup r n = Some p \<Longrightarrow> set (get_all_dependencies los p) = deps_of r n"
  by (simp add: set_listing_def get_all_dependencies_def deps_of_def)

lemma before_append: "before xs a b \<Longrightarrow> before (xs @ ys) a b"
  by (induction xs) auto

lemma before_snoc: "a \<in> set xs \<Longrightarrow> before (xs @ [b]) a b"
  by (induction xs) auto

lemma before_in_set: "before xs a b \<Longrightarrow> a \<in> set xs \<and> b \<in> set xs"
  by (induction xs) (auto split: if_splits)



lemma for_each_ok:
  assumes "\<And>n st st'. f n st = Some (Inr st') \<Longrightarrow> ok_visit los inst n st st'"
  shows "for_each f ds st = Some (Inr st') \<Longrightarrow> ok_visits los inst ds st st'"
proof (induction ds arbitrary: st)
  case Nil
  then show ?case by (simp add: visits_Nil)
next
  case (Cons d ds)
  then obtain s1 where a: "f d st = Some (Inr s1)" and b: "for_each f ds s1 = Some (Inr st')"
    by (auto split: option.splits sum.splits)
  show ?case using visits_Cons[OF assms[OF a] Cons.IH[OF b]] .
qed

lemma visit_ok: "visit k los inst n st = Some (Inr st') \<Longrightarrow> ok_visit los inst n st st'"
proof (induction k arbitrary: n st st')
  case 0
  then show ?case by simp
next
  case (Suc k)
  show ?case
  proof (cases "n \<in> inst")
    case True
    then show ?thesis using Suc.prems by (auto intro: skip_installed)
  next
    case ni: False
    show ?thesis
    proof (cases "n \<in> processing st")
      case True
      then show ?thesis using Suc.prems ni by simp
    next
      case np: False
      show ?thesis
      proof (cases "n \<in> visited st")
        case True
        then show ?thesis using Suc.prems ni np by (auto intro: skip_visited)
      next
        case nv: False
        obtain res r' where g: "get_package (repo st) n = (res, r')" by (cases "get_package (repo st) n")
        from Suc.prems ni np nv g obtain p where res: "res = Inr p"
          by (cases res) auto
        let ?s1 = "st\<lparr>processing := insert n (processing st), repo := r'\<rparr>"
        from Suc.prems ni np nv g res obtain st2 where
          fe: "for_each (visit k los inst) (get_all_dependencies los p) ?s1 = Some (Inr st2)"
          by (auto split: option.splits sum.splits)
        from Suc.prems ni np nv g res fe have inp: "n \<in> processing st2"
          by (auto split: if_splits)
        from Suc.prems ni np nv g res fe inp have st': "st' = st2\<lparr>processing := processing st2 - {n},
            visited := insert n (visited st2),
            resolved := (if n \<notin> set (resolved st2) then resolved st2 @ [n] else resolved st2)\<rparr>"
          by simp
        have "ok_visits los inst (get_all_dependencies los p) ?s1 st2"
          using for_each_ok[OF Suc.IH fe] .
        then show ?thesis
          unfolding st' using enter[OF ni np nv] g res inp by blast
      qed
    qed
  qed
qed

lemma ok_processing:
  "ok_visit los inst n st st' \<Longrightarrow> processing st' = processing st"
  "ok_visits los inst ds st st' \<Longrightarrow> processing st' = processing st"
  by (induction rule: ok_visit_ok_visits.inducts) auto

lemma ok_lookup:
  "ok_visit los inst n st st' \<Longrightarrow> lookup (repo st') = lookup (repo st)"
  "ok_visits los inst ds st st' \<Longrightarrow> lookup (repo st') = lookup (repo st)"
  by (induction rule: ok_visit_ok_visits.inducts) (auto dest: get_package_lookup)

lemma ok_known:
  "ok_visit los inst n st st' \<Longrightarrow> known (repo st') = known (repo st)"
  "ok_visits los inst ds st st' \<Longrightarrow> known (repo st') = known (repo st)"
  by (induction rule: ok_visit_ok_visits.inducts) (auto dest: get_package_known)

lemma ok_visited_mono:
  "ok_visit los inst n st st' \<Longrightarrow> visited st \<subseteq> visited st'"
  "ok_visits los inst ds st st' \<Longrightarrow> visited st \<subseteq> visited st'"
  by (induction rule: ok_visit_ok_visits.inducts) auto

lemma ok_done:
  "ok_visit los inst n st st' \<Longrightarrow> n \<in> inst \<union> visited st'"
  "ok_visits los inst ds st st' \<Longrightarrow> set ds \<subseteq> inst \<union> visited st'"
proof (induction rule: ok_visit_ok_visits.inducts)
  case (visits_Cons d st st1 ds st2)
  then show ?case using ok_visited_mono(2)[of los inst ds st1 st2] by auto
qed auto

lemma resolve_inv_enter:
  assumes "resolve_inv r inst st" "get_package (repo st) n = (res, r')" "n \<notin> visited st"
  shows "resolve_inv r inst (st\<lparr>processing := insert n (processing st), repo := r'\<rparr>)"
  using assms get_package_lookup[OF assms(2)] by (auto simp: resolve_inv_def)

lemma resolve_inv_leave:
  assumes inv: "resolve_inv r inst st2" and np: "n \<in> processing st2" and ni: "n \<notin> inst"
    and deps: "deps_of r n \<subseteq> inst \<union> visited st2"
  shows "resolve_inv r inst (st2\<lparr>processing := processing st2 - {n},
        visited := insert n (visited st2),
        resolved := (if n \<notin> set (resolved st2) then resolved st2 @ [n] else resolved st2)\<rparr>)"
proof -
  from inv np have nv: "n \<notin> visited st2" "n \<notin> set (resolved st2)"
    by (auto simp: resolve_inv_def)
  have ord: "d \<in> inst \<or> before (resolved st2 @ [n]) d v"
    if "v \<in> insert n (visited st2)" "d \<in> deps_of r v" for v d
  proof (cases "v = n")
    case True
    with that deps inv show ?thesis by (auto simp: resolve_inv_def intro: before_snoc)
  next
    case False
    with that inv have "d \<in> inst \<or> before (resolved st2) d v" by (auto simp: resolve_inv_def)
    then show ?thesis using before_append[of "resolved st2" d v "[n]"] by blast
  qed
  from inv nv ni have "lookup (repo st2) = lookup r" "set (resolved st2 @ [n]) = insert n (visited st2)"
    "distinct (resolved st2 @ [n])" "insert n (visited st2) \<inter> inst = {}"
    "insert n (visited st2) \<inter> (processing st2 - {n}) = {}"
    by (auto simp: resolve_inv_def)
  with ord nv show ?thesis unfolding resolve_inv_def by simp
qed

lemma ok_inv:
  assumes "set_listing los"
  shows "ok_visit los inst n st st' \<Longrightarrow> resolve_inv r inst st \<Longrightarrow> resolve_inv r inst st'"
    and "ok_visits los inst ds st st' \<Longrightarrow> resolve_inv r inst st \<Longrightarrow> resolve_inv r inst st'"
proof (induction rule: ok_visit_ok_visits.inducts)
  case (enter n st p r' st2)
  have ni: "n \<notin> inst" and nv: "n \<notin> visited st" and inp: "n \<in> processing st2"
    and g: "get_package (repo st) n = (Inr p, r')"
    and oks: "ok_visits los inst (get_all_dependencies los p)
        (st\<lparr>processing := insert n (processing st), repo := r'\<rparr>) st2"
    using enter by simp_all
  have i2: "resolve_inv r inst st2"
    using enter.IH resolve_inv_enter[OF enter.prems g nv] by simp
  have "lookup r n = Some p"
    using enter.prems get_package_Inr_lookup[OF g] by (simp add: resolve_inv_def)
  then have "deps_of r n = set (get_all_dependencies los p)"
    using set_all_deps[OF assms] by simp
  then have "deps_of r n \<subseteq> inst \<union> visited st2"
    using ok_done(2)[OF oks] by simp
  then show ?case using resolve_inv_leave[OF i2 inp ni] by simp
qed auto

lemma ok_reach:
  assumes "set_listing los"
  shows "ok_visit los inst n st st' \<Longrightarrow> lookup (repo st) = lookup r \<Longrightarrow>
          visited st' - visited st \<subseteq> {m. n \<notin> inst \<and> (n, m) \<in> (requires r inst)\<^sup>*}"
    and "ok_visits los inst ds st st' \<Longrightarrow> lookup (repo st) = lookup r \<Longrightarrow>
          visited st' - visited st \<subseteq> {m. \<exists>d\<in>set ds. d \<notin> inst \<and> (d, m) \<in> (requires r inst)\<^sup>*}"
proof (induction rule: ok_visit_ok_visits.inducts)
  case (enter n st p r' st2)
  have ni: "n \<notin> inst" and g: "get_package (repo st) n = (Inr p, r')"
    using enter by simp_all
  have l: "lookup r' = lookup r" using get_package_lookup[OF g] enter.prems by simp
  have "lookup r n = Some p"
    using enter.prems get_package_Inr_lookup[OF g] by simp
  then have d: "deps_of r n = set (get_all_dependencies los p)"
    using set_all_deps[OF assms] by simp
  have sub: "visited st2 - visited st \<subseteq>
      {m. \<exists>d\<in>set (get_all_dependencies los p). d \<notin> inst \<and> (d, m) \<in> (requires r inst)\<^sup>*}"
    using enter.IH l by simp
  have "(n, m) \<in> (requires r inst)\<^sup>*" if "m \<in> visited st2 - visited st" for m
  proof -
    from sub that obtain d where dd: "d \<in> deps_of r n" "d \<notin> inst" "(d, m) \<in> (requires r inst)\<^sup>*"
      using d by auto
    then have "(n, d) \<in> requires r inst" using ni by (simp add: requires_def)
    then show ?thesis using dd(3) by (rule converse_rtrancl_into_rtrancl)
  qed
  then show ?case using ni by auto
next
  case (visits_Cons d st st1 ds st2)
  have "ok_visit los inst d st st1" using visits_Cons by simp
  then have "lookup (repo st1) = lookup r" using ok_lookup(1) visits_Cons.prems by simp
  then show ?case using visits_Cons.IH visits_Cons.prems by auto
qed auto

lemma before_trans: "distinct xs \<Longrightarrow> before xs a b \<Longrightarrow> before xs b c \<Longrightarrow> before xs a c"
proof (induction xs)
  case Nil
  then show ?case by simp
next
  case (Cons x xs)
  then show ?case by (auto split: if_splits dest: before_in_set)
qed

lemma before_irrefl: "distinct xs \<Longrightarrow> \<not> before xs a a"
  by (induction xs) auto

lemma for_each_None:
  "for_each f ds s = None \<Longrightarrow>
     \<exists>ys x zs s1. ds = ys @ x # zs \<and> for_each f ys s = Some (Inr s1) \<and> f x s1 = None"
proof (induction ds arbitrary: s)
  case Nil
  then show ?case by simp
next
  case (Cons d ds)
  show ?case
  proof (cases "f d s")
    case None
    then have "d # ds = [] @ d # ds \<and> for_each f [] s = Some (Inr s) \<and> f d s = None" by simp
    then show ?thesis by blast
  next
    case (Some a)
    with Cons.prems obtain s' where s': "f d s = Some (Inr s')" "for_each f ds s' = None"
      by (cases a) auto
    from Cons.IH[OF s'(2)] obtain ys x zs s1 where
      "ds = ys @ x # zs" "for_each f ys s' = Some (Inr s1)" "f x s1 = None" by blast
    then have "d # ds = (d # ys) @ x # zs \<and> for_each f (d # ys) s = Some (Inr s1) \<and> f x s1 = None"
      using s'(1) by simp
    then show ?thesis by blast
  qed
qed

lemma for_each_Inl:
  "for_each f ds s = Some (Inl e) \<Longrightarrow>
     \<exists>ys x zs s1. ds = ys @ x # zs \<and> for_each f ys s = Some (Inr s1) \<and> f x s1 = Some (Inl e)"
proof (induction ds arbitrary: s)
  case Nil
  then show ?case by simp
next
  case (Cons d ds)
  from Cons.prems obtain a where a: "f d s = Some a" by (cases "f d s") auto
  show ?case
  proof (cases a)
    case (Inl e')
    with a Cons.prems have "e' = e" by simp
    with a Inl have "d # ds = [] @ d # ds \<and> for_each f [] s = Some (Inr s) \<and> f d s = Some (Inl e)"
      by simp
    then show ?thesis by blast
  next
    case (Inr s')
    with a Cons.prems have s': "for_each f ds s' = Some (Inl e)" by simp
    from Cons.IH[OF s'] obtain ys x zs s1 where
      "ds = ys @ x # zs" "for_each f ys s' = Some (Inr s1)" "f x s1 = Some (Inl e)" by blast
    then have "d # ds = (d # ys) @ x # zs \<and> for_each f (d # ys) s = Some (Inr s1)
        \<and> f x s1 = Some (Inl e)"
      using a Inr by simp
    then show ?thesis by blast
  qed
qed

lemma finite_loadable: "finite (loadable r)"
proof (rule finite_subset)
  show "loadable r \<subseteq> known r" by (auto simp: loadable_def dest: lookup_known)
  show "finite (known r)" by (rule finite_known)
qed

lemma visit_not_None:
  "card (loadable (repo st) - processing st) < k \<Longrightarrow> visit k los inst n st \<noteq> None"
proof (induction k arbitrary: n st)
  case 0
  then show ?case by simp
next
  case (Suc k)
  show ?case
  proof
    assume none: "visit (Suc k) los inst n st = None"
    then have ni: "n \<notin> inst" and np: "n \<notin> processing st" and nv: "n \<notin> visited st"
      by (auto split: if_splits)
    obtain res r' where g: "get_package (repo st) n = (res, r')" by (cases "get_package (repo st) n")
    from none ni np nv g obtain p where res: "res = Inr p" by (cases res) auto
    let ?s0 = "st\<lparr>processing := insert n (processing st), repo := r'\<rparr>"
    from none ni np nv g res
    have "for_each (visit k los inst) (get_all_dependencies los p) ?s0 = None"
      by (auto split: option.splits sum.splits if_splits)
    from for_each_None[OF this] obtain ys x s1 where
      pre: "for_each (visit k los inst) ys ?s0 = Some (Inr s1)" and x: "visit k los inst x s1 = None"
      by blast
    have oks: "ok_visits los inst ys ?s0 s1" using for_each_ok[OF visit_ok pre] .
    have kn: "loadable (repo s1) = loadable (repo st)"
      using ok_lookup(2)[OF oks] get_package_lookup[OF g] by (simp add: loadable_def)
    have pr: "processing s1 = insert n (processing st)" using ok_processing(2)[OF oks] by simp
    have "n \<in> loadable (repo st)" using g res by (auto simp: loadable_def lookup_def)
    then have "n \<in> loadable (repo st) - processing st" using np by simp
    moreover have "finite (loadable (repo st) - processing st)" using finite_loadable by simp
    ultimately have "card ((loadable (repo st) - processing st) - {n})
        < card (loadable (repo st) - processing st)"
      by (rule card_Diff1_less[rotated])
    moreover have "loadable (repo st) - insert n (processing st)
        = (loadable (repo st) - processing st) - {n}"
      by auto
    ultimately have "card (loadable (repo st) - insert n (processing st))
        < card (loadable (repo st) - processing st)"
      by simp
    then have "card (loadable (repo s1) - processing s1) < k" using Suc.prems kn pr by simp
    from Suc.IH[OF this, of x] x show False by blast
  qed
qed

lemma failure_ok_step:
  "failure_ok r inst x e \<Longrightarrow> (n, x) \<in> requires r inst \<Longrightarrow> failure_ok r inst n e"
  by (auto simp: failure_ok_def split: error.splits intro: converse_rtrancl_into_rtrancl)

lemma visit_error:
  assumes los: "set_listing los"
  shows "visit k los inst n st = Some (Inl (e, r')) \<Longrightarrow> lookup (repo st) = lookup r \<Longrightarrow>
     (\<forall>p\<in>processing st. (p, n) \<in> (requires r inst)\<^sup>+) \<Longrightarrow>
     n \<notin> inst \<and> failure_ok r inst n e"
proof (induction k arbitrary: n st)
  case 0
  then show ?case by simp
next
  case (Suc k)
  from Suc.prems(1) have ni: "n \<notin> inst" by (auto split: if_splits)
  show ?case
  proof (cases "n \<in> processing st")
    case True
    with Suc.prems ni have "e = CircularDependency n" "(n, n) \<in> (requires r inst)\<^sup>+" by auto
    then show ?thesis using ni by (simp add: failure_ok_def)
  next
    case np: False
    with Suc.prems(1) ni have nv: "n \<notin> visited st" by (auto split: if_splits)
    obtain res r1 where g: "get_package (repo st) n = (res, r1)" by (cases "get_package (repo st) n")
    show ?thesis
    proof (cases res)
      case (Inl e1)
      with Suc.prems(1) ni np nv g have "e = CouldNotFind n e1" by simp
      moreover have "lookup r n = None"
        using get_package_Inl_lookup[of "repo st" n e1 r1] g Inl Suc.prems(2) by simp
      ultimately show ?thesis using ni by (simp add: failure_ok_def)
    next
      case (Inr p)
      let ?s0 = "st\<lparr>processing := insert n (processing st), repo := r1\<rparr>"
      let ?ds = "get_all_dependencies los p"
      have lp: "lookup r n = Some p"
        using get_package_Inr_lookup[of "repo st" n p r1] g Inr Suc.prems(2) by simp
      have l0: "lookup (repo ?s0) = lookup r" using get_package_lookup[OF g] Suc.prems(2) by simp
      show ?thesis
      proof (cases "for_each (visit k los inst) ?ds ?s0")
        case None
        with Suc.prems(1) ni np nv g Inr show ?thesis by simp
      next
        case (Some a)
        show ?thesis
        proof (cases a)
          case (Inl er)
          with Some Suc.prems(1) ni np nv g Inr have er: "er = (e, r')" by simp
          from for_each_Inl[OF Some[unfolded Inl er]] obtain ys x zs s1 where
            ds: "?ds = ys @ x # zs" and pre: "for_each (visit k los inst) ys ?s0 = Some (Inr s1)"
            and x: "visit k los inst x s1 = Some (Inl (e, r'))" by blast
          have oks: "ok_visits los inst ys ?s0 s1" using for_each_ok[OF visit_ok pre] .
          have l1: "lookup (repo s1) = lookup r" using ok_lookup(2)[OF oks] l0 by simp
          have pr: "processing s1 = insert n (processing st)" using ok_processing(2)[OF oks] by simp
          have xi: "x \<notin> inst" using x by (cases k) (auto split: if_splits)
          have "x \<in> deps_of r n" using set_all_deps[OF los lp] ds by auto
          then have nx: "(n, x) \<in> requires r inst" using ni xi by (simp add: requires_def)
          have "\<forall>q\<in>processing s1. (q, x) \<in> (requires r inst)\<^sup>+"
            using pr nx Suc.prems(3) by (auto intro: trancl_into_trancl)
          from Suc.IH[OF x l1 this] have "failure_ok r inst x e" by simp
          then show ?thesis using failure_ok_step nx ni by blast
        next
          case (Inr st2)
          have oks: "ok_visits los inst ?ds ?s0 st2"
            using for_each_ok[OF visit_ok Some[unfolded Inr]] .
          have "n \<in> processing st2" using ok_processing(2)[OF oks] by simp
          with Some Inr Suc.prems(1) ni np nv g \<open>res = Inr p\<close> show ?thesis by simp
        qed
      qed
    qed
  qed
qed

lemma resolve_inv_init: "resolve_inv r inst \<lparr>resolved = [], visited = {}, processing = {}, repo = r\<rparr>"
  by (simp add: resolve_inv_def)

lemma resolve_inv_closed:
  assumes "resolve_inv r inst st"
  shows "(a, b) \<in> (requires r inst)\<^sup>* \<Longrightarrow> a \<in> visited st \<Longrightarrow> b \<in> visited st"
proof (induction rule: rtrancl_induct)
  case base
  then show ?case by simp
next
  case (step y z)
  then have "y \<in> visited st" "z \<in> deps_of r y" "z \<notin> inst" by (auto simp: requires_def)
  with assms have "before (resolved st) z y" by (auto simp: resolve_inv_def)
  then show ?case using assms before_in_set[of "resolved st" z y] by (auto simp: resolve_inv_def)
qed

lemma resolve_inv_order:
  assumes "resolve_inv r inst st"
  shows "(a, b) \<in> (requires r inst)\<^sup>+ \<Longrightarrow> a \<in> visited st \<Longrightarrow> before (resolved st) b a"
proof (induction rule: trancl_induct)
  case (base y)
  then have "y \<in> deps_of r a" "y \<notin> inst" by (auto simp: requires_def)
  with assms base.prems show ?case by (auto simp: resolve_inv_def)
next
  case (step y z)
  have ya: "before (resolved st) y a" using step by simp
  then have "y \<in> visited st" using assms before_in_set[of "resolved st" y a] by (auto simp: resolve_inv_def)
  moreover have "z \<in> deps_of r y" "z \<notin> inst" using step.hyps by (auto simp: requires_def)
  ultimately have "before (resolved st) z y" using assms by (auto simp: resolve_inv_def)
  then show ?case using ya assms before_trans[of "resolved st" z y a] by (simp add: resolve_inv_def)
qed

lemma resolve_inv_no_cycle:
  assumes "resolve_inv r inst st" "c \<in> visited st"
  shows "(c, c) \<notin> (requires r inst)\<^sup>+"
  using resolve_inv_order[OF assms(1), of c c] assms before_irrefl[of "resolved st" c]
  by (auto simp: resolve_inv_def)

lemma requires_trancl_outside:
  "(a, b) \<in> (requires r inst)\<^sup>+ \<Longrightarrow> a \<notin> inst \<and> b \<notin> inst"
  by (induction rule: trancl_induct) (auto simp: requires_def)

lemma requires_rtrancl_outside:
  "(a, b) \<in> (requires r inst)\<^sup>* \<Longrightarrow> b \<notin> inst \<Longrightarrow> a \<notin> inst"
  by (induction rule: rtrancl_induct) (auto simp: requires_def)

lemma resolve_cases:
  obtains (limit) "resolve depth los r root inst = None"
  | (failure) e r' where "resolve depth los r root inst = Some (Inl (e, r'))"
      "visit depth los inst root \<lparr>resolved = [], visited = {}, processing = {}, repo = r\<rparr> = Some (Inl (e, r'))"
  | (success) st where "resolve depth los r root inst = Some (Inr (resolved st, repo st))"
      "visit depth los inst root \<lparr>resolved = [], visited = {}, processing = {}, repo = r\<rparr> = Some (Inr st)"
proof (cases "visit depth los inst root \<lparr>resolved = [], visited = {}, processing = {}, repo = r\<rparr>")
  case None
  then show ?thesis using limit by (simp add: resolve_def)
next
  case (Some a)
  show ?thesis
  proof (cases a)
    case (Inl er)
    then show ?thesis using Some failure[of "fst er" "snd er"] by (simp add: resolve_def)
  next
    case (Inr st)
    then show ?thesis using Some success[of st] by (simp add: resolve_def)
  qed
qed

lemma resolve_not_limit:
  "card (loadable r) < depth \<Longrightarrow> resolve depth los r root inst \<noteq> None"
  using visit_not_None[of "\<lparr>resolved = [], visited = {}, processing = {}, repo = r\<rparr>" depth los inst root]
  by (auto simp: resolve_def split: option.splits sum.splits)

lemma resolve_failure:
  assumes "set_listing los" "resolve depth los r root inst = Some (Inl (e, r'))"
  shows "root \<notin> inst \<and> failure_ok r inst root e"
proof -
  from assms(2) have "visit depth los inst root \<lparr>resolved = [], visited = {}, processing = {}, repo = r\<rparr>
      = Some (Inl (e, r'))"
    by (auto simp: resolve_def split: option.splits sum.splits)
  from visit_error[OF assms(1) this, of r] show ?thesis by simp
qed

lemma resolve_success:
  assumes "set_listing los" "resolve depth los r root inst = Some (Inr (xs, r'))"
  shows "\<exists>st. resolve_inv r inst st \<and> resolved st = xs \<and> repo st = r' \<and> set xs = visited st
     \<and> (root \<in> inst \<or> root \<in> visited st)
     \<and> visited st \<subseteq> {m. root \<notin> inst \<and> (root, m) \<in> (requires r inst)\<^sup>*}"
proof -
  let ?s0 = "\<lparr>resolved = [], visited = {}, processing = {}, repo = r\<rparr>"
  from assms(2) obtain st where v: "visit depth los inst root ?s0 = Some (Inr st)"
    and st: "resolved st = xs" "repo st = r'"
    by (auto simp: resolve_def split: option.splits sum.splits)
  have ok: "ok_visit los inst root ?s0 st" using visit_ok[OF v] .
  have inv: "resolve_inv r inst st" using ok_inv(1)[OF assms(1) ok resolve_inv_init] .
  have "visited st - visited ?s0 \<subseteq> {m. root \<notin> inst \<and> (root, m) \<in> (requires r inst)\<^sup>*}"
    using ok_reach(1)[OF assms(1) ok, of r] by simp
  then show ?thesis using inv st ok_done(1)[OF ok] by (auto simp: resolve_inv_def)
qed

lemma get_package_agree:
  assumes "agree_off inst r1 r2" "n \<notin> inst"
  shows "fst (get_package r1 n) = fst (get_package r2 n)
     \<and> agree_off inst (snd (get_package r1 n)) (snd (get_package r2 n))"
proof -
  from assms have e: "fmlookup (cache r1) n = fmlookup (cache r2) n"
    "fmlookup (repo_files r1) n = fmlookup (repo_files r2) n"
    "fmlookup (path_files r1) n = fmlookup (path_files r2) n"
    "path_is_json r1 n = path_is_json r2 n"
    by (auto simp: agree_off_def)
  have upd: "agree_off inst (r1\<lparr>cache := fmupd n p (cache r1)\<rparr>) (r2\<lparr>cache := fmupd n p (cache r2)\<rparr>)" for p
    using assms(1) by (auto simp: agree_off_def)
  show ?thesis
    unfolding get_package_def load_and_cache_def e
    using assms(1) upd by (auto split: option.splits sum.splits)
qed

lemma for_each_rel:
  assumes "\<And>x s1 s2. st_rel inst s1 s2 \<Longrightarrow> res_rel inst (f x s1) (f x s2)"
  shows "st_rel inst s1 s2 \<Longrightarrow> res_rel inst (for_each f ds s1) (for_each f ds s2)"
proof (induction ds arbitrary: s1 s2)
  case Nil
  then show ?case by simp
next
  case (Cons d ds)
  from assms[OF Cons.prems, of d] show ?case
  proof (cases rule: option.rel_cases)
    case None
    then show ?thesis by simp
  next
    case (Some a b)
    from Some(3) show ?thesis
    proof (cases rule: rel_sum.cases)
      case (1 x y)
      then show ?thesis using Some by simp
    next
      case (2 x y)
      then show ?thesis using Some Cons.IH[of x y] by simp
    qed
  qed
qed

lemma visit_rel:
  "st_rel inst s1 s2 \<Longrightarrow> res_rel inst (visit k los inst n s1) (visit k los inst n s2)"
proof (induction k arbitrary: n s1 s2)
  case 0
  then show ?case by simp
next
  case (Suc k)
  from Suc.prems have eq: "resolved s1 = resolved s2" "visited s1 = visited s2"
    "processing s1 = processing s2" and ag: "agree_off inst (repo s1) (repo s2)"
    by (auto simp: st_rel_def)
  show ?case
  proof (cases "n \<in> inst \<or> n \<in> processing s1 \<or> n \<in> visited s1")
    case True
    then show ?thesis using Suc.prems eq ag by auto
  next
    case False
    then have ni: "n \<notin> inst" "n \<notin> processing s1" "n \<notin> visited s1" by auto
    obtain res ra where g1: "get_package (repo s1) n = (res, ra)" by (cases "get_package (repo s1) n")
    obtain res2 rb where g2: "get_package (repo s2) n = (res2, rb)" by (cases "get_package (repo s2) n")
    from get_package_agree[OF ag ni(1)] g1 g2 have r: "res2 = res" and ab: "agree_off inst ra rb"
      by auto
    show ?thesis
    proof (cases res)
      case (Inl e)
      then show ?thesis using ni eq g1 g2 r ab by simp
    next
      case (Inr p)
      let ?t1 = "s1\<lparr>processing := insert n (processing s1), repo := ra\<rparr>"
      let ?t2 = "s2\<lparr>processing := insert n (processing s2), repo := rb\<rparr>"
      have "st_rel inst ?t1 ?t2" using eq ab by (simp add: st_rel_def)
      from for_each_rel[of inst "visit k los inst", OF Suc.IH this]
      have fr: "res_rel inst (for_each (visit k los inst) (get_all_dependencies los p) ?t1)
                  (for_each (visit k los inst) (get_all_dependencies los p) ?t2)" .
      show ?thesis
        using fr
      proof (cases rule: option.rel_cases)
        case None
        then show ?thesis using ni eq g1 g2 r Inr by simp
      next
        case (Some a b)
        from Some(3) show ?thesis
        proof (cases rule: rel_sum.cases)
          case (1 x y)
          then show ?thesis using Some ni eq g1 g2 r Inr by simp
        next
          case (2 x y)
          then show ?thesis using Some ni eq g1 g2 r Inr by (auto simp: st_rel_def)
        qed
      qed
    qed
  qed
qed

lemma resolve_rel:
  assumes "agree_off inst r1 r2"
  shows "outcome (resolve depth los r1 root inst) = outcome (resolve depth los r2 root inst)"
proof -
  let ?s1 = "\<lparr>resolved = [], visited = {}, processing = {}, repo = r1\<rparr>"
  let ?s2 = "\<lparr>resolved = [], visited = {}, processing = {}, repo = r2\<rparr>"
  have "st_rel inst ?s1 ?s2" using assms by (simp add: st_rel_def)
  from visit_rel[OF this, of depth los root] show ?thesis
  proof (cases rule: option.rel_cases)
    case None
    then show ?thesis by (simp add: resolve_def outcome_def)
  next
    case (Some a b)
    from Some(3) show ?thesis
    proof (cases rule: rel_sum.cases)
      case (1 x y)
      then show ?thesis using Some by (cases x; cases y) (auto simp: resolve_def outcome_def)
    next
      case (2 x y)
      then show ?thesis using Some by (auto simp: resolve_def outcome_def st_rel_def)
    qed
  qed
qed

lemma get_package_cache_frame:
  "get_package r n = (res, r') \<Longrightarrow> m \<noteq> n \<Longrightarrow> fmlookup (cache r') m = fmlookup (cache r) m"
  using get_package_result[of r n res r'] by (cases res) auto

lemma ok_cache_frame:
  "ok_visit los inst n st st' \<Longrightarrow> m \<in> inst \<Longrightarrow> fmlookup (cache (repo st')) m = fmlookup (cache (repo st)) m"
  "ok_visits los inst ds st st' \<Longrightarrow> m \<in> inst \<Longrightarrow> fmlookup (cache (repo st')) m = fmlookup (cache (repo st)) m"
proof (induction rule: ok_visit_ok_visits.inducts)
  case (enter n st p r' st2)
  then have "m \<noteq> n" "get_package (repo st) n = (Inr p, r')" by auto
  from get_package_cache_frame[OF this(2) this(1)] enter show ?case by simp
qed auto

subsection \<open>Runs among installed names, and the example repositories\<close>

lemma for_each_installed:
  "set ds \<subseteq> inst \<Longrightarrow> for_each (visit (Suc k) los inst) ds st = Some (Inr st)"
  by (induction ds) auto

lemma resolve_deps_installed:
  assumes los: "set_listing los" and root: "root \<notin> inst" and p: "lookup r root = Some p"
    and deps: "set (dependencies p) \<union> set (build_dependencies p) \<subseteq> inst"
  shows "outcome (resolve (Suc (Suc k)) los r root inst) = Some (Inr [root])"
proof -
  obtain res r' where g: "get_package r root = (res, r')" by (cases "get_package r root")
  with p have res: "res = Inr p" by (cases res) (auto simp: lookup_def)
  have "set (get_all_dependencies los p) \<subseteq> inst"
    using los deps by (simp add: get_all_dependencies_def set_listing_def)
  from for_each_installed[OF this] show ?thesis
    using root g res by (simp add: resolve_def outcome_def)
qed

lemma resolve_root_missing:
  assumes "root \<notin> inst" "get_package r root = (Inl e, r')"
  shows "resolve (Suc k) los r root inst = Some (Inl (CouldNotFind root e, r'))"
  using assms by (simp add: resolve_def)

lemma resolve_root_installed:
  "root \<in> inst \<Longrightarrow> resolve (Suc k) los r root inst = Some (Inr ([], r))"
  by (simp add: resolve_def)

lemma lookup_catalog_repo:
  "lookup (catalog_repo fs) n =
     (case map_of fs n of None \<Rightarrow> None
      | Some f \<Rightarrow> (case from_file f of Inl e \<Rightarrow> None | Inr p \<Rightarrow> Some p))"
  by (simp add: lookup_def catalog_repo_def get_package_def load_and_cache_def fmlookup_of_list
      split: option.splits sum.splits)

lemma set_listing_remdups: "set_listing remdups"
  by (simp add: set_listing_def)

lemmas run_simps = resolve_def outcome_def catalog_repo_def get_package_def
  load_and_cache_def from_file_def mk_package_def get_all_dependencies_def fmlookup_of_list

lemma deps_lib: "deps_of lib_repo n = (if n = ''libB'' then {''libA''} else {})"
  by (simp add: deps_of_def lookup_catalog_repo lib_repo_def from_file_def mk_package_def)

lemma requires_lib: "requires lib_repo {} = {(''libB'', ''libA'')}"
  by (auto simp: requires_def deps_lib split: if_splits)

lemma loadable_lib: "loadable lib_repo = {''libA'', ''libB''}"
  by (auto simp: loadable_def dom_def lookup_catalog_repo lib_repo_def from_file_def mk_package_def
      split: if_splits)

lemma deps_dangling: "deps_of dangling_repo n = (if n = ''libB'' then {''libA''} else {})"
  by (simp add: deps_of_def lookup_catalog_repo dangling_repo_def from_file_def mk_package_def)

lemma requires_dangling: "requires dangling_repo {} = {(''libB'', ''libA'')}"
  by (auto simp: requires_def deps_dangling split: if_splits)

lemma deps_cycle: "deps_of cycle_repo n = (if n = ''A'' then {''B''} else if n = ''B'' then {''A''} else {})"
  by (simp add: deps_of_def lookup_catalog_repo cycle_repo_def from_file_def mk_package_def)

lemma loadable_cycle: "loadable cycle_repo = {''A'', ''B''}"
  by (auto simp: loadable_def dom_def lookup_catalog_repo cycle_repo_def from_file_def mk_package_def
      split: if_splits)

lemma cycle_in_cycle_repo: "(''A'', ''A'') \<in> (requires cycle_repo {})\<^sup>+"
proof -
  have "(''A'', ''B'') \<in> requires cycle_repo {}" "(''B'', ''A'') \<in> requires cycle_repo {}"
    by (simp_all add: requires_def deps_cycle)
  then show ?thesis by (rule trancl_into_trancl[OF r_into_trancl])
qed

lemma deps_cycle_dangling:
  "deps_of cycle_dangling_repo n =
     (if n = ''A'' then {''M'', ''B''} else if n = ''B'' then {''A''} else {})"
  by (simp add: deps_of_def lookup_catalog_repo cycle_dangling_repo_def from_file_def mk_package_def)

lemma cycle_in_cycle_dangling_repo: "(''A'', ''A'') \<in> (requires cycle_dangling_repo {})\<^sup>+"
proof -
  have "(''A'', ''B'') \<in> requires cycle_dangling_repo {}"
    "(''B'', ''A'') \<in> requires cycle_dangling_repo {}"
    by (simp_all add: requires_def deps_cycle_dangling)
  then show ?thesis by (rule trancl_into_trancl[OF r_into_trancl])
qed

lemma agree_lib_broken: "agree_off {''libA''} lib_repo lib_repo_broken"
  by (simp add: agree_off_def lib_repo_def lib_repo_broken_def catalog_repo_def fmlookup_of_list)

subsection \<open>Fetcher and manager: auxiliary facts\<close>

lemma fetch_existing_not_forced:
  "name p \<in> dom (dirs w) \<Longrightarrow> fetch env p False w = (Inr (name p), w)"
  by (simp add: fetch_def Let_def)

lemma get_build_order_Nil: "get_build_order los r [] = (Inr [], r)"
  by (simp add: get_build_order_def)

lemma path_repo_fallback:
  "get_package path_repo ''./libA.manifest'' = (Inl (PackageNotFound ''./libA.manifest''), path_repo)"
  "fmlookup (path_files path_repo) ''./libA.manifest'' = Some (Manifest (mk_package ''libA'' [] []))"
  "from_file (Manifest (mk_package ''libA'' [] [])) = Inr (mk_package ''libA'' [] [])"
  "name (mk_package ''libA'' [] []) = ''libA''"
  by (simp_all add: path_repo_def get_package_def fmlookup_of_list from_file_def mk_package_def)

lemma path_repo_unknown:
  "fmlookup (cache path_repo) ''libA'' = None" "fmlookup (repo_files path_repo) ''libA'' = None"
  "\<not> (''libA'' \<in> fmdom' (path_files path_repo) \<and> path_is_json path_repo ''libA'')"
  by (simp_all add: path_repo_def)

lemma path_repo_or_file:
  "get_package_or_file path_repo ''./libA.manifest'' = (Inr (mk_package ''libA'' [] []), path_repo)"
  by (simp add: get_package_or_file_def path_repo_fallback)

lemma path_repo_lookup: "lookup path_repo ''libA'' = None"
  by (simp add: lookup_def get_package_def path_repo_unknown path_repo_def)

lemma lib_repo_libA:
  "get_package_or_file lib_repo ''libA'' =
     (Inr (mk_package ''libA'' [] []), lib_repo\<lparr>cache := fmupd ''libA'' (mk_package ''libA'' [] []) fmempty\<rparr>)"
  by (simp add: get_package_or_file_def lib_repo_def run_simps)

section \<open>The claims\<close>

subsection \<open>resolve\<close>

text \<open>
  Claim C1, as amended. For a cycle-free catalog in which every name reachable from the
  root has a manifest that loads, \<open>resolve root {}\<close> returns, for every recursion limit
  above the number of loadable names, exactly the names reachable from the root through
  dependencies and build dependencies, each once, and every dependency of a returned
  name stands before that name.
\<close>

theorem resolve_closure_post_order:
  assumes los: "set_listing los"
    and acyc: "\<forall>m. (m, m) \<notin> (requires r {})\<^sup>+"
    and present: "\<forall>m. (root, m) \<in> (requires r {})\<^sup>* \<longrightarrow> lookup r m \<noteq> None"
    and depth: "card (loadable r) < depth"
  shows "\<exists>xs r'. resolve depth los r root {} = Some (Inr (xs, r'))
           \<and> set xs = (requires r {})\<^sup>* `` {root} \<and> distinct xs
           \<and> (\<forall>n\<in>set xs. \<forall>d\<in>deps_of r n. before xs d n)"
proof (cases depth los r root "{} :: string set" rule: resolve_cases)
  case limit
  then show ?thesis using resolve_not_limit[OF depth] by simp
next
  case (failure e r')
  from resolve_failure[OF los failure(1)] have "failure_ok r {} root e" by simp
  then show ?thesis using acyc present by (auto simp: failure_ok_def split: error.splits)
next
  case (success st)
  from resolve_success[OF los success(1)] obtain s where
    inv: "resolve_inv r {} s" and s: "resolved s = resolved st" "set (resolved st) = visited s"
    and root: "root \<in> visited s" and sub: "visited s \<subseteq> {m. (root, m) \<in> (requires r {})\<^sup>*}"
    by auto
  have "(requires r {})\<^sup>* `` {root} \<subseteq> visited s"
    using resolve_inv_closed[OF inv _ root] by auto
  then have "set (resolved st) = (requires r {})\<^sup>* `` {root}" using sub s by auto
  moreover have "distinct (resolved st)" using inv s by (simp add: resolve_inv_def)
  moreover have "\<forall>n\<in>set (resolved st). \<forall>d\<in>deps_of r n. before (resolved st) d n"
    using inv s by (auto simp: resolve_inv_def)
  ultimately show ?thesis using success(1) by blast
qed

theorem resolve_closure_post_order_witness:
  "\<exists>xs r'. resolve 3 remdups lib_repo ''libB'' {} = Some (Inr (xs, r'))
           \<and> set xs = (requires lib_repo {})\<^sup>* `` {''libB''} \<and> distinct xs
           \<and> (\<forall>n\<in>set xs. \<forall>d\<in>deps_of lib_repo n. before xs d n)"
proof (rule resolve_closure_post_order)
  show "set_listing remdups" by (rule set_listing_remdups)
  show "\<forall>m. (m, m) \<notin> (requires lib_repo {})\<^sup>+" by (simp add: requires_lib trancl_insert2)
  show "\<forall>m. (''libB'', m) \<in> (requires lib_repo {})\<^sup>* \<longrightarrow> lookup lib_repo m \<noteq> None"
  proof (intro allI impI)
    fix m assume "(''libB'', m) \<in> (requires lib_repo {})\<^sup>*"
    then have "m = ''libA'' \<or> m = ''libB''" by (auto simp: requires_lib rtrancl_insert)
    then show "lookup lib_repo m \<noteq> None"
      by (auto simp: lookup_catalog_repo lib_repo_def from_file_def mk_package_def)
  qed
  show "card (loadable lib_repo) < 3" by (simp add: loadable_lib)
qed

text \<open>
  The claim as stated fails where a dependency has no manifest: \<open>dangling_repo\<close> is
  cycle-free, libB names libA, libA is absent, and \<open>resolve\<close> raises.
\<close>

theorem resolve_closure_counterexample:
  "(\<forall>m. (m, m) \<notin> (requires dangling_repo {})\<^sup>+) \<and>
   outcome (resolve 3 remdups dangling_repo ''libB'' {})
     = Some (Inl (CouldNotFind ''libA'' (PackageNotFound ''libA'')))"
proof
  show "\<forall>m. (m, m) \<notin> (requires dangling_repo {})\<^sup>+"
    by (simp add: requires_dangling trancl_insert2)
  show "outcome (resolve 3 remdups dangling_repo ''libB'' {})
     = Some (Inl (CouldNotFind ''libA'' (PackageNotFound ''libA'')))"
    by (simp add: numeral_3_eq_3 dangling_repo_def run_simps)
qed

text \<open>
  Claim C3. The outcome of \<open>resolve root inst\<close> is the same for any two repositories that
  differ only in what they hold for names in \<open>inst\<close> (so nothing held for an installed
  name is read, be it missing or invalid); a returned list contains no installed name,
  and the cache gains no entry for one; a package all of whose dependencies are
  installed resolves to itself alone.
\<close>

theorem resolve_trusts_installed:
  assumes los: "set_listing los"
  shows "(agree_off inst r r2 \<longrightarrow>
            outcome (resolve depth los r2 root inst) = outcome (resolve depth los r root inst))
       \<and> (\<forall>xs r'. resolve depth los r root inst = Some (Inr (xs, r')) \<longrightarrow>
            set xs \<inter> inst = {} \<and> (\<forall>m\<in>inst. fmlookup (cache r') m = fmlookup (cache r) m))
       \<and> (root \<notin> inst \<and> lookup r root = Some p
            \<and> set (dependencies p) \<union> set (build_dependencies p) \<subseteq> inst \<and> 2 \<le> depth \<longrightarrow>
            outcome (resolve depth los r root inst) = Some (Inr [root]))"
proof (intro conjI impI allI)
  assume "agree_off inst r r2"
  then show "outcome (resolve depth los r2 root inst) = outcome (resolve depth los r root inst)"
    using resolve_rel[of inst r r2 depth los root] by simp
next
  fix xs r' assume res: "resolve depth los r root inst = Some (Inr (xs, r'))"
  from resolve_success[OF los res] show "set xs \<inter> inst = {}"
    by (auto simp: resolve_inv_def)
  let ?s0 = "\<lparr>resolved = [], visited = {}, processing = {}, repo = r\<rparr>"
  from res obtain st where v: "visit depth los inst root ?s0 = Some (Inr st)" and st: "repo st = r'"
    by (auto simp: resolve_def split: option.splits sum.splits)
  show "\<forall>m\<in>inst. fmlookup (cache r') m = fmlookup (cache r) m"
    using ok_cache_frame(1)[OF visit_ok[OF v]] st by simp
next
  assume a: "root \<notin> inst \<and> lookup r root = Some p
      \<and> set (dependencies p) \<union> set (build_dependencies p) \<subseteq> inst \<and> 2 \<le> depth"
  then obtain k where "depth = Suc (Suc k)" by (auto simp: numeral_2_eq_2 Suc_le_eq dest: less_imp_Suc_add)
  then show "outcome (resolve depth los r root inst) = Some (Inr [root])"
    using resolve_deps_installed[OF los, of root inst r p k] a by simp
qed

theorem resolve_trusts_installed_witness:
  "outcome (resolve 2 remdups lib_repo_broken ''libB'' {''libA''})
     = outcome (resolve 2 remdups lib_repo ''libB'' {''libA''})
   \<and> outcome (resolve 2 remdups lib_repo ''libB'' {''libA''}) = Some (Inr [''libB''])"
proof -
  have "lookup lib_repo ''libB'' = Some (mk_package ''libB'' [''libA''] [])"
    by (simp add: lookup_catalog_repo lib_repo_def from_file_def mk_package_def)
  moreover have "set (dependencies (mk_package ''libB'' [''libA''] []))
      \<union> set (build_dependencies (mk_package ''libB'' [''libA''] [])) \<subseteq> {''libA''}"
    by (simp add: mk_package_def)
  ultimately show ?thesis
    using resolve_trusts_installed[OF set_listing_remdups, of "{''libA''}" lib_repo lib_repo_broken 2
        "''libB''" "mk_package ''libB'' [''libA''] []"] agree_lib_broken
    by simp
qed

text \<open>
  Claim C4, as amended. When a dependency cycle among names that are not installed can
  be reached from the root, \<open>resolve\<close> returns no list and, for every recursion limit
  above the number of loadable names, does not run into that limit: it raises, either
  the cycle error naming a name that lies on a cycle reachable from the root, or the
  lookup error for a reachable name that has no manifest; and it is the cycle error
  when every reachable name has a manifest.
\<close>

theorem resolve_cycle_fails:
  assumes los: "set_listing los"
    and depth: "card (loadable r) < depth"
    and reach: "(root, c) \<in> (requires r inst)\<^sup>*"
    and cyc: "(c, c) \<in> (requires r inst)\<^sup>+"
  shows "\<exists>e r'. resolve depth los r root inst = Some (Inl (e, r'))
     \<and> ((\<exists>m. e = CircularDependency m \<and> (m, m) \<in> (requires r inst)\<^sup>+
              \<and> (root, m) \<in> (requires r inst)\<^sup>*)
        \<or> (\<exists>m e'. e = CouldNotFind m e' \<and> lookup r m = None
              \<and> (root, m) \<in> (requires r inst)\<^sup>*))
     \<and> ((\<forall>m. (root, m) \<in> (requires r inst)\<^sup>* \<longrightarrow> lookup r m \<noteq> None) \<longrightarrow>
          (\<exists>m. e = CircularDependency m))"
proof (cases depth los r root inst rule: resolve_cases)
  case limit
  then show ?thesis using resolve_not_limit[OF depth] by simp
next
  case (failure e r')
  from resolve_failure[OF los failure(1)] have "failure_ok r inst root e" by simp
  then show ?thesis using failure(1) by (auto simp: failure_ok_def split: error.splits)
next
  case (success st)
  from resolve_success[OF los success(1)] obtain s where
    inv: "resolve_inv r inst s" and root: "root \<in> inst \<or> root \<in> visited s"
    by auto
  have "c \<notin> inst" using requires_trancl_outside[OF cyc] by simp
  then have "root \<notin> inst" using requires_rtrancl_outside[OF reach] by simp
  then have "c \<in> visited s" using resolve_inv_closed[OF inv reach] root by simp
  then show ?thesis using resolve_inv_no_cycle[OF inv] cyc by simp
qed

theorem resolve_cycle_fails_witness:
  "\<exists>e r'. resolve 3 remdups cycle_repo ''A'' {} = Some (Inl (e, r'))
     \<and> ((\<exists>m. e = CircularDependency m \<and> (m, m) \<in> (requires cycle_repo {})\<^sup>+
              \<and> (''A'', m) \<in> (requires cycle_repo {})\<^sup>*)
        \<or> (\<exists>m e'. e = CouldNotFind m e' \<and> lookup cycle_repo m = None
              \<and> (''A'', m) \<in> (requires cycle_repo {})\<^sup>*))
     \<and> ((\<forall>m. (''A'', m) \<in> (requires cycle_repo {})\<^sup>* \<longrightarrow> lookup cycle_repo m \<noteq> None) \<longrightarrow>
          (\<exists>m. e = CircularDependency m))"
proof (rule resolve_cycle_fails)
  show "set_listing remdups" by (rule set_listing_remdups)
  show "card (loadable cycle_repo) < 3" by (simp add: loadable_cycle)
  show "(''A'', ''A'') \<in> (requires cycle_repo {})\<^sup>*" by simp
  show "(''A'', ''A'') \<in> (requires cycle_repo {})\<^sup>+" by (rule cycle_in_cycle_repo)
qed

text \<open>
  The claim as stated fails where the traversal meets a name without a manifest before
  it closes the cycle: in \<open>cycle_dangling_repo\<close> A and B depend on each other, A also
  names the absent M, and with M listed first the lookup error for M is raised.
\<close>

theorem resolve_cycle_counterexample:
  "(''A'', ''A'') \<in> (requires cycle_dangling_repo {})\<^sup>+ \<and>
   outcome (resolve 3 remdups cycle_dangling_repo ''A'' {})
     = Some (Inl (CouldNotFind ''M'' (PackageNotFound ''M'')))"
proof
  show "(''A'', ''A'') \<in> (requires cycle_dangling_repo {})\<^sup>+"
    by (rule cycle_in_cycle_dangling_repo)
  show "outcome (resolve 3 remdups cycle_dangling_repo ''A'' {})
     = Some (Inl (CouldNotFind ''M'' (PackageNotFound ''M'')))"
    by (simp add: numeral_3_eq_3 cycle_dangling_repo_def run_simps)
qed

subsection \<open>fetch\<close>

text \<open>
  Claim C5, as amended. For a package with a local-copy source whose path is an existing
  directory, a call of \<open>fetch\<close> with the force flag set, or with no target directory
  present, removes any existing target and leaves a fresh copy of the directory at the
  path; a call without force while the target exists returns the target as it is.
\<close>

theorem fetch_local_copy:
  assumes "src_type (source p) = Some ''local''" and "src_path (source p) = Some path"
    and "local_path env path = Some (Dir items)"
  shows "fetch env p force w =
           (if force \<or> name p \<notin> dom (dirs w)
            then (Inr (name p), w\<lparr>dirs := (dirs w)(name p \<mapsto> items)\<rparr>)
            else (Inr (name p), w))"
  using assms by (auto simp: fetch_def fetch_local_def Let_def)

theorem fetch_local_copy_witness:
  "fetch example_env (proj_package (source_of ''local'' None None (Some ''/src/proj''))) True fetched_world
     = (Inr ''proj'', fetched_world\<lparr>dirs := (dirs fetched_world)(''proj'' \<mapsto> [(''new.c'', File ''v2'')])\<rparr>)"
  using fetch_local_copy[of "proj_package (source_of ''local'' None None (Some ''/src/proj''))"
      "''/src/proj''" example_env "[(''new.c'', File ''v2'')]" True fetched_world]
  by (simp add: proj_package_def source_of_def example_env_def)

text \<open>
  The claim as stated fails without force: the target that a previous fetch left is
  returned unchanged, although the local path now holds other files.
\<close>

theorem fetch_local_counterexample:
  "fetch example_env (proj_package (source_of ''local'' None None (Some ''/src/proj''))) False fetched_world
     = (Inr ''proj'', fetched_world)
   \<and> dirs fetched_world ''proj'' = Some [(''old.c'', File ''v1'')]
   \<and> local_path example_env ''/src/proj'' = Some (Dir [(''new.c'', File ''v2'')])"
  by (simp add: fetch_def Let_def proj_package_def source_of_def example_env_def fetched_world_def)

text \<open>
  Claim C6, evaluated on the code. With a version-control source, an existing target
  and no force, \<open>fetch\<close> returns at once: no command is run and the target is untouched.
  Called on the same input, \<open>fetch_git\<close> itself would fetch the remote refs and check out
  the tag; \<open>fetch\<close> never reaches it.
\<close>

theorem fetch_git_existing_untouched:
  "fetch example_env (proj_package (source_of ''git'' (Some ''https://example.org/proj.git'') (Some ''v1.0'') None))
      False fetched_world = (Inr ''proj'', fetched_world)
   \<and> cmds (snd (fetch_git example_env (source_of ''git'' (Some ''https://example.org/proj.git'') (Some ''v1.0'') None)
        ''proj'' False fetched_world))
     = [[''git'', ''--version''], [''git'', ''fetch'', ''origin''], [''git'', ''checkout'', ''v1.0'']]"
  by (simp add: fetch_def fetch_git_def run_in_def checkout_def truthy_def Let_def
      proj_package_def source_of_def example_env_def fetched_world_def)

text \<open>
  Claim C7, evaluated on the code. An archive whose only top-level entry is a directory
  is hoisted when it is a tarball and left one level down when it is a zip file.
\<close>

theorem fetch_zip_not_hoisted:
  "dirs (snd (fetch example_env (proj_package (source_of ''zip'' (Some ''https://example.org/proj-1.0.zip'') None None))
      False empty_world)) ''proj'' = Some proj_tree
   \<and> dirs (snd (fetch example_env (proj_package (source_of ''tarball'' (Some ''https://example.org/proj-1.0.tar.gz'') None None))
      False empty_world)) ''proj'' = Some [(''Makefile'', File ''all:''), (''main.c'', File ''int main;'')]"
  by (simp add: fetch_def fetch_zip_def fetch_tarball_def download_file_def archive_name_def
      hoist_single_def truthy_def Let_def proj_tree_def
      proj_package_def source_of_def example_env_def empty_world_def)

subsection \<open>install\<close>

text \<open>
  Claim C8. When the package that \<open>install\<close> finds for its argument is recorded as
  installed and force is not set, \<open>install\<close> returns without a fetch, build or install
  step: the database (records and backing file), the fetched sources and the record of
  steps are unchanged; only the repository's cache may have gained the entry of the
  lookup.
\<close>

theorem install_installed_without_force:
  assumes "get_package_or_file (m_repository m) spec = (Inr p, r1)"
    and "is_installed (m_database m) (name p)"
  shows "install env depth los spec False m = Some (Inr (), m\<lparr>m_repository := r1\<rparr>)
     \<and> m_database (m\<lparr>m_repository := r1\<rparr>) = m_database m
     \<and> m_world (m\<lparr>m_repository := r1\<rparr>) = m_world m
     \<and> m_steps (m\<lparr>m_repository := r1\<rparr>) = m_steps m"
  using assms by (simp add: install_def)

theorem install_installed_without_force_witness:
  "install example_manager_env 3 remdups ''libA'' False (manager_of lib_repo [''libA'' \<mapsto> libA_record])
     = Some (Inr (), (manager_of lib_repo [''libA'' \<mapsto> libA_record])
          \<lparr>m_repository := lib_repo\<lparr>cache := fmupd ''libA'' (mk_package ''libA'' [] []) fmempty\<rparr>\<rparr>)
   \<and> m_steps (manager_of lib_repo [''libA'' \<mapsto> libA_record]) = []"
  using install_installed_without_force[of "manager_of lib_repo [''libA'' \<mapsto> libA_record]" "''libA''"
      "mk_package ''libA'' [] []" "lib_repo\<lparr>cache := fmupd ''libA'' (mk_package ''libA'' [] []) fmempty\<rparr>"
      example_manager_env 3 remdups]
    lib_repo_libA
  by (simp add: manager_of_def is_installed_def Database_def load_def mk_package_def)

text \<open>
  Claim C10, as amended. Let a manifest be loaded through the path fallback of
  \<open>install\<close>, its name being neither cached, nor a catalog entry, nor a path to an existing
  .json file. If the name is not recorded as installed, \<open>install\<close> fails in the resolution
  step with the lookup error, nothing being fetched, built, installed or recorded. If
  the name is recorded as installed, then with force the resolution returns the empty
  list and the install step's own lookup fails, and without force \<open>install\<close> returns
  at once.
\<close>

theorem install_from_path_fails:
  assumes fallback: "get_package r spec = (Inl e0, r)" "is_ValueError e0"
      "fmlookup (path_files r) spec = Some f" "from_file f = Inr p"
    and unknown: "fmlookup (cache r) (name p) = None" "fmlookup (repo_files r) (name p) = None"
      "\<not> (name p \<in> fmdom' (path_files r) \<and> path_is_json r (name p))"
    and r: "m_repository m = r" and depth: "0 < depth"
  shows "install env depth los spec force m =
     (if \<not> is_installed (m_database m) (name p)
      then Some (Inl (CouldNotFind (name p) (PackageNotFound (name p))), m)
      else if force then Some (Inl (PackageNotFound (name p)), m)
      else Some (Inr (), m))"
proof -
  have gpf: "get_package_or_file r spec = (Inr p, r)"
    using fallback by (simp add: get_package_or_file_def)
  have gp: "get_package r (name p) = (Inl (PackageNotFound (name p)), r)"
    using unknown by (auto simp: get_package_def fmlookup_dom'_iff split: option.splits)
  have mr: "m\<lparr>m_repository := r\<rparr> = m" using r by simp
  obtain k where k: "depth = Suc k" using depth by (cases depth) auto
  show ?thesis
  proof (cases "is_installed (m_database m) (name p)")
    case False
    then have "name p \<notin> get_all_installed (m_database m)"
      by (simp add: is_installed_def get_all_installed_def)
    from resolve_root_missing[OF this gp, of k los] show ?thesis
      using False gpf r mr k by (simp add: install_def)
  next
    case True
    then have "name p \<in> get_all_installed (m_database m)"
      by (simp add: is_installed_def get_all_installed_def)
    from resolve_root_installed[OF this, of k los r] show ?thesis
      using True gpf gp r mr k
      by (simp add: install_def get_build_order_Nil install_package_def)
  qed
qed

theorem install_from_path_fails_witness:
  "install example_manager_env 3 remdups ''./libA.manifest'' False (manager_of path_repo Map.empty)
     = Some (Inl (CouldNotFind ''libA'' (PackageNotFound ''libA'')), manager_of path_repo Map.empty)"
  using install_from_path_fails[of path_repo "''./libA.manifest''" "PackageNotFound ''./libA.manifest''"
      "Manifest (mk_package ''libA'' [] [])" "mk_package ''libA'' [] []" "manager_of path_repo Map.empty"
      3 example_manager_env remdups False]
    path_repo_fallback path_repo_unknown
  by (simp add: manager_of_def is_installed_def Database_def load_def)

text \<open>
  The claim as stated fails when the name of the manifest is already recorded as
  installed and force is not set: \<open>install\<close> returns normally.
\<close>

theorem install_from_path_counterexample:
  "install example_manager_env 3 remdups ''./libA.manifest'' False
       (manager_of path_repo [''libA'' \<mapsto> libA_record])
     = Some (Inr (), manager_of path_repo [''libA'' \<mapsto> libA_record])
   \<and> get_package_or_file path_repo ''./libA.manifest'' = (Inr (mk_package ''libA'' [] []), path_repo)
   \<and> lookup path_repo ''libA'' = None"
  by (simp add: install_def path_repo_or_file path_repo_lookup path_repo_fallback(4) manager_of_def
      is_installed_def Database_def load_def)

subsection \<open>The database\<close>

text \<open>
  Claim C9. When the backing file is missing, or its content cannot be parsed,
  constructing the database yields the empty store: no name is reported installed.
\<close>

theorem load_failure_gives_empty_store:
  assumes "f = Absent \<or> f = Unparsable"
  shows "installed (Database f) = Map.empty \<and> (\<forall>n. \<not> is_installed (Database f) n)
         \<and> get_all_installed (Database f) = {}"
  using assms by (auto simp: Database_def load_def is_installed_def get_all_installed_def)

theorem load_failure_gives_empty_store_witness:
  "installed (Database Unparsable) = Map.empty \<and> \<not> is_installed (Database Unparsable) ''zlib''
   \<and> installed (Database Absent) = Map.empty \<and> \<not> is_installed (Database Absent) ''zlib''"
  using load_failure_gives_empty_store [of Unparsable] load_failure_gives_empty_store [of Absent]
  by simp

end
